theory Spec2Isabelle
  imports Main "HOL-Library.Multiset"
begin

section \<open>The image load queue of \<^verbatim>\<open>static/js/main.js\<close>\<close>

text \<open>
  The class \<^verbatim>\<open>ImageLoadQueue\<close> keeps a priority queue of image elements, loads at most
  \<^verbatim>\<open>maxConcurrent\<close> of them at a time, reads a browser cache before the network and
  retries a failed load through a timer.

  JavaScript runs one handler at a time to completion; an \<^verbatim>\<open>async\<close> method runs until its
  next \<^verbatim>\<open>await\<close> and is resumed by a later event. The model therefore has one function for
  every synchronous stretch of a method, a list of the suspended calls of each async method,
  and one event for every resumption. DOM elements are objects shared between the caller,
  the queue entries and the suspended calls, so they live in a store addressed by reference.
\<close>

subsection \<open>Data\<close>

type_synonym ref = nat

text \<open>An \<^verbatim>\<open><img>\<close> element: \<^verbatim>\<open>id\<close> (empty when unset), \<^verbatim>\<open>dataset.src\<close>
  (absent when there is no \<^verbatim>\<open>data-src\<close> attribute), \<^verbatim>\<open>src\<close> and \<^verbatim>\<open>classList\<close>.
  The field \<open>src\<close> is the attribute as it was assigned; reading the property
  \<^verbatim>\<open>element.src\<close> gives the URL the browser resolves it to (see \<open>resolve_url\<close> below).\<close>

record imgElement =
  elem_id :: string
  dataset_src :: "string option"
  src :: string
  classList :: "string set"

text \<open>The object literal pushed by \<^verbatim>\<open>addImage\<close>.\<close>

record queueItem =
  element :: ref
  priority :: int
  retries :: nat
  timestamp :: nat

text \<open>A suspended call of \<^verbatim>\<open>loadImage\<close>: it waits for \<^verbatim>\<open>getCachedImage\<close> or for
  \<^verbatim>\<open>loadImageFromNetwork\<close>; in the second case the string that was assigned to the
  \<^verbatim>\<open>src\<close> of the \<^verbatim>\<open>Image\<close> object is kept.\<close>

datatype phase = AwaitCache | AwaitNetwork string

record load =
  item :: queueItem
  imageUrl :: string
  phase :: phase

text \<open>A pending \<^verbatim>\<open>setTimeout\<close> of the retry branch: the closure's \<^verbatim>\<open>queueItem\<close> and the
  delay in milliseconds.\<close>

record timer =
  callback :: queueItem
  delay :: nat

text \<open>A suspended call of \<^verbatim>\<open>cacheImage\<close>: it waits for \<^verbatim>\<open>caches.open\<close>, for
  \<^verbatim>\<open>fetch(src)\<close>, or for \<^verbatim>\<open>cache.put\<close> of the fetched body.\<close>

datatype jobPhase = AwaitOpen | AwaitFetch | AwaitPut string

record cacheJob =
  job_url :: string
  job_src :: string
  job_phase :: jobPhase

text \<open>The fields of the \<^verbatim>\<open>ImageLoadQueue\<close> object, followed by the part of the browser it
  works on: the element store, whether \<^verbatim>\<open>'caches' in window\<close>, the content of the named
  cache, the suspended calls, the pending retry timers, the network requests issued so
  far (oldest first, each by the URL string handed to \<^verbatim>\<open>img.src\<close> or \<^verbatim>\<open>fetch\<close>), and the
  browser's resolution of a URL string against the document: what reading the \<^verbatim>\<open>src\<close>
  property of an image returns for the string held by the attribute (absolute, with the
  scheme in lower case). The function is a parameter; nothing is assumed about it.\<close>

record loader =
  queue :: "queueItem list"
  running :: int
  maxConcurrent :: int
  cacheName :: string
  maxRetries :: nat
  retryDelay :: nat
  elements :: "ref \<Rightarrow> imgElement"
  caches_in_window :: bool
  cache :: "string \<rightharpoonup> string"
  loads :: "load list"
  timers :: "timer list"
  jobs :: "cacheJob list"
  requests :: "string list"
  resolve_url :: "string \<Rightarrow> string"

text \<open>What a rejected promise or a \<^verbatim>\<open>throw\<close> carries.\<close>

datatype exn =
  CacheOpenError | CacheMatchError | BlobError | ImageError | ImageTimeout
  | FetchError | CachePutError

text \<open>What the Cache API does during one call of \<^verbatim>\<open>getCachedImage\<close>.\<close>

record cacheRead =
  open_throws :: bool
  match_throws :: bool
  blob_throws :: bool

text \<open>How the promise of \<^verbatim>\<open>loadImageFromNetwork\<close> settles: \<^verbatim>\<open>img.onload\<close>,
  \<^verbatim>\<open>img.onerror\<close>, or the ten second timeout.\<close>

datatype imageEvent = Onload | Onerror | Timeout

text \<open>What the call awaited by a suspended \<^verbatim>\<open>cacheImage\<close> does: it throws, or
  \<^verbatim>\<open>caches.open\<close> returns, or \<^verbatim>\<open>fetch\<close> returns a response (\<^verbatim>\<open>response.ok\<close> and
  the body), or \<^verbatim>\<open>cache.put\<close> returns.\<close>

datatype jobReply = Threw exn | Opened | Fetched bool string | Stored

record queueStatus =
  queued :: nat
  status_running :: int
  status_maxConcurrent :: int

subsection \<open>Helpers\<close>

text \<open>JavaScript truthiness of a value that is \<^verbatim>\<open>undefined\<close>/\<^verbatim>\<open>null\<close> or a string.\<close>

definition truthy :: "string option \<Rightarrow> bool" where
  "truthy v = (case v of None \<Rightarrow> False | Some u \<Rightarrow> u \<noteq> [])"

definition update_element :: "ref \<Rightarrow> (imgElement \<Rightarrow> imgElement) \<Rightarrow> loader \<Rightarrow> loader" where
  "update_element el f s = s\<lparr>elements := (elements s)(el := f (elements s el))\<rparr>"

text \<open>\<^verbatim>\<open>Array.prototype.findIndex\<close>, with \<open>None\<close> for \<^verbatim>\<open>-1\<close>.\<close>

fun findIndex :: "('a \<Rightarrow> bool) \<Rightarrow> 'a list \<Rightarrow> nat option" where
  "findIndex P [] = None"
| "findIndex P (x # xs) = (if P x then Some 0 else map_option Suc (findIndex P xs))"

text \<open>\<^verbatim>\<open>this.queue.sort((a, b) => b.priority - a.priority)\<close>: the sort of an array is
  stable, and the comparator orders by descending priority.\<close>

definition sort_queue :: "queueItem list \<Rightarrow> queueItem list" where
  "sort_queue q = sort_key (\<lambda>a. - priority a) q"

text \<open>\<^verbatim>\<open>xs.splice(k, 1)\<close>: a call that has returned is no longer suspended.\<close>

definition remove_at :: "nat \<Rightarrow> 'a list \<Rightarrow> 'a list" where
  "remove_at k xs = take k xs @ drop (Suc k) xs"

text \<open>\<^verbatim>\<open>URL.createObjectURL(blob)\<close>: a non-empty \<^verbatim>\<open>blob:\<close> URL standing for the bytes.\<close>

definition createObjectURL :: "string \<Rightarrow> string" where
  "createObjectURL blob = ''blob:'' @ blob"

definition placeholder :: string where
  "placeholder = ''/static/images/viedeo_material_default.png''"

subsection \<open>The methods\<close>

definition constructor ::
  "int \<Rightarrow> (ref \<Rightarrow> imgElement) \<Rightarrow> bool \<Rightarrow> (string \<rightharpoonup> string) \<Rightarrow> (string \<Rightarrow> string) \<Rightarrow> loader" where
  "constructor maxConcurrent0 document hasCaches store resolve =
     \<lparr>queue = [], running = 0, maxConcurrent = maxConcurrent0,
      cacheName = ''bili-monitor-image-cache'', maxRetries = 2, retryDelay = 500,
      elements = document, caches_in_window = hasCaches, cache = store,
      loads = [], timers = [], jobs = [], requests = [], resolve_url = resolve\<rparr>"

text \<open>\<^verbatim>\<open>initCache\<close>: opening the cache may throw; the \<^verbatim>\<open>catch\<close> only warns.\<close>

definition initCache :: "bool \<Rightarrow> loader \<Rightarrow> exn + loader" where
  "initCache open_fails s =
     (case (if caches_in_window s \<and> open_fails then Inl CacheOpenError else Inr s) of
        Inl error \<Rightarrow> Inr s
      | Inr s' \<Rightarrow> Inr s')"

definition clear :: "loader \<Rightarrow> loader" where
  "clear s = s\<lparr>queue := []\<rparr>"

text \<open>\<^verbatim>\<open>processQueue\<close>, the synchronous start of \<^verbatim>\<open>loadImage\<close> (up to its first
  \<^verbatim>\<open>await\<close>) and \<^verbatim>\<open>completeImage\<close> call each other.\<close>

function processQueue :: "loader \<Rightarrow> loader"
  and loadImage :: "queueItem \<Rightarrow> loader \<Rightarrow> loader"
  and completeImage :: "ref \<Rightarrow> loader \<Rightarrow> loader" where
  "processQueue s =
     (if running s < maxConcurrent s \<and> queue s \<noteq> []
      then processQueue (loadImage (hd (queue s)) (s\<lparr>queue := tl (queue s)\<rparr>))
      else s)"
| "loadImage queueItem s =
     (case dataset_src (elements s (element queueItem)) of
        None \<Rightarrow> completeImage (element queueItem) s
      | Some url \<Rightarrow>
          if url = [] then completeImage (element queueItem) s
          else s\<lparr>running := running s + 1,
                 loads := loads s @ [\<lparr>item = queueItem, imageUrl = url, phase = AwaitCache\<rparr>]\<rparr>)"
| "completeImage imgElement s =
     processQueue
       ((if truthy (dataset_src (elements s imgElement))
         then update_element imgElement (\<lambda>e. e\<lparr>dataset_src := None\<rparr>) s
         else s)\<lparr>running := running s - 1\<rparr>)"
  by pat_completeness auto

text \<open>\<^verbatim>\<open>imgElement.id || `img-${...}`\<close>: the element's identifier, or a fresh one built
  from \<open>rnd\<close>, the string drawn from \<^verbatim>\<open>Math.random()\<close>.\<close>

definition image_id :: "loader \<Rightarrow> ref \<Rightarrow> string \<Rightarrow> string" where
  "image_id s el rnd =
     (if elem_id (elements s el) \<noteq> [] then elem_id (elements s el) else ''img-'' @ rnd)"

text \<open>\<^verbatim>\<open>addImage(imgElement, priority)\<close>. The argument is an element or \<^verbatim>\<open>null\<close>;
  \<open>now\<close> is \<^verbatim>\<open>Date.now()\<close>.\<close>

definition addImage :: "ref option \<Rightarrow> int \<Rightarrow> string \<Rightarrow> nat \<Rightarrow> loader \<Rightarrow> loader" where
  "addImage imgElement priority0 rnd now s =
     (case imgElement of
        None \<Rightarrow> s
      | Some el \<Rightarrow>
          if \<not> truthy (dataset_src (elements s el)) then s
          else
            let imageId = image_id s el rnd;
                s1 = update_element el (\<lambda>e. e\<lparr>elem_id := imageId\<rparr>) s
            in case findIndex (\<lambda>it. elem_id (elements s1 (element it)) = imageId) (queue s1) of
                 Some existingIndex \<Rightarrow>
                   s1\<lparr>queue := sort_queue
                        ((queue s1)[existingIndex :=
                           (queue s1 ! existingIndex)\<lparr>priority := priority0\<rparr>])\<rparr>
               | None \<Rightarrow>
                   processQueue
                     (s1\<lparr>queue := sort_queue
                          (queue s1 @ [\<lparr>element = el, priority = priority0, retries = 0,
                                        timestamp = now\<rparr>])\<rparr>))"

text \<open>The body of the \<^verbatim>\<open>try\<close> of \<^verbatim>\<open>getCachedImage\<close>, and the method with its
  \<^verbatim>\<open>catch\<close>.\<close>

definition getCachedImage_try :: "loader \<Rightarrow> cacheRead \<Rightarrow> string \<Rightarrow> exn + string option" where
  "getCachedImage_try s io url =
     (if open_throws io then Inl CacheOpenError
      else if match_throws io then Inl CacheMatchError
      else case cache s url of
             None \<Rightarrow> Inr None
           | Some body \<Rightarrow>
               if blob_throws io then Inl BlobError else Inr (Some (createObjectURL body)))"

definition getCachedImage :: "loader \<Rightarrow> cacheRead \<Rightarrow> string \<Rightarrow> exn + string option" where
  "getCachedImage s io url =
     (if \<not> caches_in_window s then Inr None
      else case getCachedImage_try s io url of
             Inl error \<Rightarrow> Inr None
           | Inr None \<Rightarrow> Inr None
           | Inr (Some objectUrl) \<Rightarrow> Inr (Some objectUrl))"

text \<open>The synchronous part of \<^verbatim>\<open>cacheImage(url, src)\<close>: it returns at once without the
  Cache API or for a \<^verbatim>\<open>data:\<close> URL, and otherwise suspends at \<^verbatim>\<open>caches.open\<close>.\<close>

definition cacheImage :: "string \<Rightarrow> string \<Rightarrow> loader \<Rightarrow> loader" where
  "cacheImage url src0 s =
     (if \<not> caches_in_window s then s
      else if take 5 src0 = ''data:'' then s
      else s\<lparr>jobs := jobs s @ [\<lparr>job_url = url, job_src = src0, job_phase = AwaitOpen\<rparr>]\<rparr>)"

text \<open>The rest of the \<^verbatim>\<open>try\<close> of \<^verbatim>\<open>cacheImage\<close> for the suspended call \<open>k\<close>, one awaited
  call at a time: after \<^verbatim>\<open>caches.open\<close> the method issues \<^verbatim>\<open>fetch(src)\<close>; after the
  response it calls \<^verbatim>\<open>cache.put\<close> when \<^verbatim>\<open>response.ok\<close>; after the put the cache holds the
  body under \<open>url\<close>. A reply that is not the awaited one leaves the state as it is.\<close>

definition cacheImage_try :: "nat \<Rightarrow> jobReply \<Rightarrow> loader \<Rightarrow> exn + loader" where
  "cacheImage_try k reply s =
     (let j = jobs s ! k in
      case reply of
        Threw error \<Rightarrow> Inl error
      | Opened \<Rightarrow>
          (case job_phase j of
             AwaitOpen \<Rightarrow>
               Inr (s\<lparr>requests := requests s @ [job_src j],
                      jobs := (jobs s)[k := j\<lparr>job_phase := AwaitFetch\<rparr>]\<rparr>)
           | _ \<Rightarrow> Inr s)
      | Fetched ok body \<Rightarrow>
          (case job_phase j of
             AwaitFetch \<Rightarrow>
               if ok then Inr (s\<lparr>jobs := (jobs s)[k := j\<lparr>job_phase := AwaitPut body\<rparr>]\<rparr>)
               else Inr (s\<lparr>jobs := remove_at k (jobs s)\<rparr>)
           | _ \<Rightarrow> Inr s)
      | Stored \<Rightarrow>
          (case job_phase j of
             AwaitPut body \<Rightarrow>
               Inr (s\<lparr>cache := (cache s)(job_url j \<mapsto> body), jobs := remove_at k (jobs s)\<rparr>)
           | _ \<Rightarrow> Inr s))"

text \<open>The resumption of \<^verbatim>\<open>cacheImage\<close> with its \<^verbatim>\<open>catch\<close>, which warns and returns.\<close>

definition cacheImage_resume :: "nat \<Rightarrow> jobReply \<Rightarrow> loader \<Rightarrow> exn + loader" where
  "cacheImage_resume k reply s =
     (if k < length (jobs s) then
        case cacheImage_try k reply s of
          Inl error \<Rightarrow> Inr (s\<lparr>jobs := remove_at k (jobs s)\<rparr>)
        | Inr s' \<Rightarrow> Inr s'
      else Inr s)"

text \<open>The executor of the promise of \<^verbatim>\<open>loadImageFromNetwork\<close>: it marks the element as
  loading and assigns \<^verbatim>\<open>img.src\<close>, which issues the request. The URL is read from
  \<^verbatim>\<open>dataset.src\<close> again; an absent value would be converted to the string
  \<^verbatim>\<open>undefined\<close>.\<close>

definition network_url :: "queueItem \<Rightarrow> loader \<Rightarrow> string" where
  "network_url queueItem s =
     (case dataset_src (elements s (element queueItem)) of
        None \<Rightarrow> ''undefined'' | Some url \<Rightarrow> url)"

definition loadImageFromNetwork :: "queueItem \<Rightarrow> loader \<Rightarrow> loader" where
  "loadImageFromNetwork queueItem s =
     (update_element (element queueItem)
        (\<lambda>e. e\<lparr>classList := insert ''image-loading'' (classList e)\<rparr>) s)
     \<lparr>requests := requests s @ [network_url queueItem s]\<rparr>"

text \<open>Reading the property \<^verbatim>\<open>element.src\<close>: the resolved form of the attribute.\<close>

definition src_property :: "ref \<Rightarrow> loader \<Rightarrow> string" where
  "src_property el s = resolve_url s (src (elements s el))"

text \<open>The settling of that promise: \<^verbatim>\<open>onload\<close> assigns \<^verbatim>\<open>img.src\<close>, read from the
  \<^verbatim>\<open>Image\<close> object and so the resolved form of the string \<open>img_src\<close> that was assigned to
  it, to the element and resolves; \<^verbatim>\<open>onerror\<close> and the timeout reject.\<close>

definition loadImageFromNetwork_settle ::
  "queueItem \<Rightarrow> string \<Rightarrow> imageEvent \<Rightarrow> loader \<Rightarrow> exn + loader" where
  "loadImageFromNetwork_settle queueItem img_src ev s =
     (case ev of
        Onload \<Rightarrow>
          Inr (update_element (element queueItem) (\<lambda>e. e\<lparr>src := resolve_url s img_src\<rparr>) s)
      | Onerror \<Rightarrow> Inl ImageError
      | Timeout \<Rightarrow> Inl ImageTimeout)"

text \<open>The two \<^verbatim>\<open>classList\<close> statements that end the \<^verbatim>\<open>try\<close> of \<^verbatim>\<open>loadImage\<close>.\<close>

definition loadImage_success :: "ref \<Rightarrow> loader \<Rightarrow> loader" where
  "loadImage_success el s =
     update_element el
       (\<lambda>e. e\<lparr>classList := insert ''image-loaded'' (classList e)
                              - {''image-loading'', ''image-error''}\<rparr>) s"

text \<open>The \<^verbatim>\<open>catch\<close> of \<^verbatim>\<open>loadImage\<close>: below \<^verbatim>\<open>maxRetries\<close> it increments
  \<^verbatim>\<open>queueItem.retries\<close> and sets a timer whose delay uses the incremented count; otherwise
  it shows the default picture.\<close>

definition loadImage_catch :: "queueItem \<Rightarrow> loader \<Rightarrow> loader" where
  "loadImage_catch queueItem s =
     (if retries queueItem < maxRetries s
      then
        let queueItem' = queueItem\<lparr>retries := retries queueItem + 1\<rparr>
        in s\<lparr>timers := timers s @
               [\<lparr>callback = queueItem', delay = retryDelay s * 2 ^ retries queueItem'\<rparr>]\<rparr>
      else
        update_element (element queueItem)
          (\<lambda>e. e\<lparr>src := placeholder,
                 classList := insert ''image-error'' (classList e) - {''image-loading''}\<rparr>) s)"

text \<open>The \<^verbatim>\<open>finally\<close> of \<^verbatim>\<open>loadImage\<close>, after which the suspended call \<open>k\<close> is over.\<close>

definition loadImage_finally :: "nat \<Rightarrow> loader \<Rightarrow> loader" where
  "loadImage_finally k s =
     processQueue (s\<lparr>running := running s - 1, loads := remove_at k (loads s)\<rparr>)"

text \<open>The suspended call \<open>k\<close> of \<^verbatim>\<open>loadImage\<close> resumes after
  \<^verbatim>\<open>await this.getCachedImage(imageUrl)\<close>: a rejection would enter the \<^verbatim>\<open>catch\<close>, a
  truthy result is shown, and anything else starts the network load.\<close>

definition loadImage_cached :: "nat \<Rightarrow> cacheRead \<Rightarrow> loader \<Rightarrow> exn + loader" where
  "loadImage_cached k io s =
     (if k < length (loads s) \<and> phase (loads s ! k) = AwaitCache then
        let f = loads s ! k; el = element (item f) in
        case getCachedImage s io (imageUrl f) of
          Inl error \<Rightarrow> Inr (loadImage_finally k (loadImage_catch (item f) s))
        | Inr cachedImage \<Rightarrow>
            if truthy cachedImage
            then Inr (loadImage_finally k
                   (loadImage_success el
                      (update_element el (\<lambda>e. e\<lparr>src := the cachedImage\<rparr>) s)))
            else Inr ((loadImageFromNetwork (item f) s)
                   \<lparr>loads := (loads s)[k := f\<lparr>phase := AwaitNetwork (network_url (item f) s)\<rparr>]\<rparr>)
      else Inr s)"

text \<open>The suspended call \<open>k\<close> resumes after \<^verbatim>\<open>await this.loadImageFromNetwork(queueItem)\<close>:
  on success it calls \<^verbatim>\<open>cacheImage(imageUrl, element.src)\<close> without awaiting it, the second
  argument read from the element's property; on rejection it enters the \<^verbatim>\<open>catch\<close>; the
  \<^verbatim>\<open>finally\<close> runs in both cases.\<close>

definition loadImage_settled :: "nat \<Rightarrow> imageEvent \<Rightarrow> loader \<Rightarrow> exn + loader" where
  "loadImage_settled k ev s =
     (if k < length (loads s) then
        let f = loads s ! k; el = element (item f) in
        case phase f of
          AwaitCache \<Rightarrow> Inr s
        | AwaitNetwork img_src \<Rightarrow>
            (case loadImageFromNetwork_settle (item f) img_src ev s of
               Inr s1 \<Rightarrow>
                 Inr (loadImage_finally k
                   (loadImage_success el (cacheImage (imageUrl f) (src_property el s1) s1)))
             | Inl error \<Rightarrow> Inr (loadImage_finally k (loadImage_catch (item f) s)))
      else Inr s)"

text \<open>The retry timer \<open>k\<close> fires: its callback calls \<^verbatim>\<open>addImage\<close> with the priority of
  the failed entry minus one.\<close>

definition retry_timer :: "nat \<Rightarrow> string \<Rightarrow> nat \<Rightarrow> loader \<Rightarrow> loader" where
  "retry_timer k rnd now s =
     (if k < length (timers s) then
        let queueItem = callback (timers s ! k)
        in addImage (Some (element queueItem)) (priority queueItem - 1) rnd now
             (s\<lparr>timers := remove_at k (timers s)\<rparr>)
      else s)"

definition getQueueStatus :: "loader \<Rightarrow> queueStatus" where
  "getQueueStatus s =
     \<lparr>queued = length (queue s), status_running = running s,
      status_maxConcurrent = maxConcurrent s\<rparr>"

subsection \<open>The event loop\<close>

text \<open>Everything that can happen to a loader: a call of \<^verbatim>\<open>addImage\<close> or \<^verbatim>\<open>clear\<close> by the
  page, and the resumption of a suspended call or the firing of a timer by the browser.\<close>

datatype event =
  AddImage "ref option" int string nat
  | Clear
  | CacheReplied nat cacheRead
  | ImageSettled nat imageEvent
  | TimerFired nat string nat
  | JobReplied nat jobReply

definition step :: "loader \<Rightarrow> event \<Rightarrow> exn + loader" where
  "step s ev =
     (case ev of
        AddImage imgElement priority0 rnd now \<Rightarrow> Inr (addImage imgElement priority0 rnd now s)
      | Clear \<Rightarrow> Inr (clear s)
      | CacheReplied k io \<Rightarrow> loadImage_cached k io s
      | ImageSettled k r \<Rightarrow> loadImage_settled k r s
      | TimerFired k rnd now \<Rightarrow> Inr (retry_timer k rnd now s)
      | JobReplied k reply \<Rightarrow> cacheImage_resume k reply s)"

text \<open>A run stops at the first event whose handler lets an exception escape.\<close>

primrec run :: "loader \<Rightarrow> event list \<Rightarrow> exn + loader" where
  "run s [] = Inr s"
| "run s (ev # evs) = (case step s ev of Inl error \<Rightarrow> Inl error | Inr s' \<Rightarrow> run s' evs)"

subsection \<open>Notions used in the statements\<close>

text \<open>The identifier of the element of a queue entry, as \<^verbatim>\<open>item.element.id\<close> reads it.\<close>

definition target_id :: "loader \<Rightarrow> queueItem \<Rightarrow> string" where
  "target_id s qi = elem_id (elements s (element qi))"

text \<open>Every queued element still has a non-empty \<^verbatim>\<open>data-src\<close>.\<close>

definition valid_queue :: "loader \<Rightarrow> bool" where
  "valid_queue s = (\<forall>qi\<in>set (queue s). truthy (dataset_src (elements s (element qi))))"

text \<open>The suspended call that \<^verbatim>\<open>loadImage\<close> leaves behind for a valid entry, and the number
  of entries one run of \<^verbatim>\<open>processQueue\<close> can start.\<close>

definition start_load :: "loader \<Rightarrow> queueItem \<Rightarrow> load" where
  "start_load s qi =
     \<lparr>item = qi, imageUrl = the (dataset_src (elements s (element qi))), phase = AwaitCache\<rparr>"

definition free_slots :: "loader \<Rightarrow> nat" where
  "free_slots s = min (length (queue s)) (nat (maxConcurrent s - running s))"

text \<open>What holds between any two handlers: \<^verbatim>\<open>running\<close> counts the suspended calls of
  \<^verbatim>\<open>loadImage\<close> and stays within the limit, the queue is valid, holds one entry per
  non-empty element id and is sorted by descending priority, and no slot is free while an
  entry waits.\<close>

definition loader_pre :: "loader \<Rightarrow> bool" where
  "loader_pre s \<longleftrightarrow>
     running s = int (length (loads s)) \<and> running s \<le> maxConcurrent s \<and>
     valid_queue s \<and>
     (\<forall>qi\<in>set (queue s). target_id s qi \<noteq> []) \<and>
     distinct (map (target_id s) (queue s)) \<and>
     sorted (map (\<lambda>qi. - priority qi) (queue s))"

definition loader_inv :: "loader \<Rightarrow> bool" where
  "loader_inv s \<longleftrightarrow>
     loader_pre s \<and> \<not> (running s < maxConcurrent s \<and> queue s \<noteq> [])"

subsection \<open>A sample page\<close>

text \<open>Four cover images as \<^verbatim>\<open>renderMonitors\<close> writes them, each with an \<^verbatim>\<open>id\<close> and a
  \<^verbatim>\<open>data-src\<close>, and a fifth whose \<^verbatim>\<open>data-src\<close> is an inline image with its scheme in upper
  case; every other reference is an element with neither.\<close>

definition blank_element :: imgElement where
  "blank_element = \<lparr>elem_id = [], dataset_src = None, src = [], classList = {}\<rparr>"

definition cover :: "string \<Rightarrow> string \<Rightarrow> imgElement" where
  "cover i url = \<lparr>elem_id = i, dataset_src = Some url, src = [], classList = {''cover-img''}\<rparr>"

definition sample_document :: "ref \<Rightarrow> imgElement" where
  "sample_document =
     (\<lambda>_. blank_element)
       (1 := cover ''cover-img-1'' ''/img/1.jpg'', 2 := cover ''cover-img-2'' ''/img/2.jpg'',
        3 := cover ''cover-img-3'' ''/img/3.jpg'', 4 := cover ''cover-img-4'' ''/img/4.jpg'',
        5 := cover ''cover-img-5'' ''DATA:image/gif;base64,R0lG'')"

text \<open>A page served from \<^verbatim>\<open>http://localhost\<close>: a path is resolved against that origin,
  the scheme of an inline image is put in lower case, and any other string is taken to be
  absolute already.\<close>

definition sample_resolve :: "string \<Rightarrow> string" where
  "sample_resolve url =
     (if take 1 url = ''/'' then ''http://localhost'' @ url
      else if take 5 url = ''DATA:'' then ''data:'' @ drop 5 url
      else url)"

text \<open>A cache read in which no Cache API call throws.\<close>

definition read_ok :: cacheRead where
  "read_ok = \<lparr>open_throws = False, match_throws = False, blob_throws = False\<rparr>"

text \<open>Three images are added, the first is looked up and loaded, and the queue is cleared.\<close>

definition sample_events :: "event list" where
  "sample_events =
     [AddImage (Some 1) 0 ''k3x'' 10, AddImage (Some 2) 0 ''k3y'' 11, AddImage (Some 3) 0 ''k3z'' 12,
      CacheReplied 0 read_ok, ImageSettled 0 Onload, Clear]"

text \<open>The scheduler is entered with three entries waiting and both slots free.\<close>

definition waiting_state :: loader where
  "waiting_state =
     (constructor 2 sample_document True Map.empty sample_resolve)
       \<lparr>queue := [\<lparr>element = 1, priority = 0, retries = 0, timestamp = 10\<rparr>,
                  \<lparr>element = 2, priority = 0, retries = 0, timestamp = 11\<rparr>,
                  \<lparr>element = 3, priority = 0, retries = 0, timestamp = 12\<rparr>]\<rparr>"

text \<open>The first image has been added while the cache holds a response for its URL.\<close>

definition cached_state :: loader where
  "cached_state =
     addImage (Some 1) 0 ''k3x'' 10
       (constructor 2 sample_document True [''/img/1.jpg'' \<mapsto> ''JPEG''] sample_resolve)"

text \<open>A cache read in which \<^verbatim>\<open>caches.open\<close> throws.\<close>

definition read_fails :: cacheRead where
  "read_fails = \<lparr>open_throws = True, match_throws = False, blob_throws = False\<rparr>"

text \<open>Two images are being loaded and a third waits with priority 3.\<close>

definition busy_events :: "event list" where
  "busy_events =
     [AddImage (Some 1) 0 ''k3x'' 10, AddImage (Some 2) 0 ''k3y'' 11, AddImage (Some 3) 3 ''k3z'' 12]"

definition busy_state :: loader where
  "busy_state =
     addImage (Some 3) 3 ''k3z'' 12 (addImage (Some 2) 0 ''k3y'' 11 cached_state)"

definition waiting_entry :: queueItem where
  "waiting_entry = \<lparr>element = 3, priority = 3, retries = 0, timestamp = 12\<rparr>"

text \<open>A fourth image is then added with priority 5 and added again with priority 3.\<close>

definition reprioritise_events :: "event list" where
  "reprioritise_events =
     busy_events @ [AddImage (Some 4) 5 ''k3w'' 13, AddImage (Some 4) 3 ''k3v'' 14]"

text \<open>The state of the sample page, with an empty cache, after a list of events.\<close>

definition sample_run :: "event list \<Rightarrow> loader" where
  "sample_run evs =
     (case run (constructor 2 sample_document True Map.empty sample_resolve) evs of
        Inr s \<Rightarrow> s
      | Inl error \<Rightarrow> constructor 2 sample_document True Map.empty sample_resolve)"

text \<open>The first image is added and its cache lookup misses, so the network load starts;
  later it loads, and \<^verbatim>\<open>cacheImage\<close> opens the cache and fetches the body.\<close>

definition loading_events :: "event list" where
  "loading_events = [AddImage (Some 1) 0 ''k3x'' 10, CacheReplied 0 read_ok]"

text \<open>The inline image is added and its cache lookup misses.\<close>

definition inline_events :: "event list" where
  "inline_events = [AddImage (Some 5) 0 ''k3u'' 15, CacheReplied 0 read_ok]"

definition storing_events :: "event list" where
  "storing_events =
     loading_events @ [ImageSettled 0 Onload, JobReplied 0 Opened, JobReplied 0 (Fetched True ''JPEG'')]"

text \<open>Three images are added, the third has to wait, and the lookup of the first misses.\<close>

definition crowded_events :: "event list" where
  "crowded_events = busy_events @ [CacheReplied 0 read_ok]"

text \<open>One attempt whose cache lookup misses and whose network load fails; and the first
  image failing four times, the retry timer firing after each of the first three.\<close>

definition failed_attempt :: "event list" where
  "failed_attempt = [CacheReplied 0 read_ok, ImageSettled 0 Onerror]"

definition always_failing :: "event list" where
  "always_failing =
     AddImage (Some 1) 0 ''k3x'' 10 # failed_attempt
       @ TimerFired 0 ''k3x'' 1020 # failed_attempt
       @ TimerFired 0 ''k3x'' 2030 # failed_attempt
       @ TimerFired 0 ''k3x'' 3040 # failed_attempt"

text \<open>No queue entry and no suspended load has been retried, \<^verbatim>\<open>maxRetries\<close> is positive,
  no element is marked \<^verbatim>\<open>image-error\<close>, and every pending retry waits twice the base
  delay.\<close>

definition fresh_retries :: "loader \<Rightarrow> bool" where
  "fresh_retries s \<longleftrightarrow>
     (\<forall>qi\<in>set (queue s). retries qi = 0) \<and> (\<forall>f\<in>set (loads s). retries (item f) = 0)
     \<and> 0 < maxRetries s \<and> (\<forall>r. ''image-error'' \<notin> classList (elements s r))
     \<and> (\<forall>t\<in>set (timers s). delay t = retryDelay s * 2)"

section \<open>Termination of the scheduler\<close>

lemma queue_length_partial:
  "processQueue_loadImage_completeImage_dom (Inl s) \<Longrightarrow>
     length (queue (processQueue s)) \<le> length (queue s)"
  "processQueue_loadImage_completeImage_dom (Inr (Inl (qi, s))) \<Longrightarrow>
     length (queue (loadImage qi s)) \<le> length (queue s)"
  "processQueue_loadImage_completeImage_dom (Inr (Inr (el, s))) \<Longrightarrow>
     length (queue (completeImage el s)) \<le> length (queue s)"
proof (induct rule: processQueue_loadImage_completeImage.pinduct)
  case (1 s)
  then show ?case
    by (cases "running s < maxConcurrent s \<and> queue s \<noteq> []")
       (auto simp: processQueue.psimps)
next
  case (2 queueItem s)
  then show ?case
    by (auto simp: loadImage.psimps split: option.splits)
next
  case (3 el s)
  then show ?case
    by (auto simp: completeImage.psimps update_element_def)
qed

termination processQueue
proof (relation "measure (\<lambda>x. case x of
           Inl s \<Rightarrow> 3 * length (queue s)
         | Inr (Inl (qi, s)) \<Rightarrow> 3 * length (queue s) + 2
         | Inr (Inr (el, s)) \<Rightarrow> 3 * length (queue s) + 1)", goal_cases)
  case 1
  show ?case by simp
next
  case (2 s)
  then show ?case by (cases "queue s") auto
next
  case (3 s)
  with queue_length_partial(2)[of "hd (queue s)" "s\<lparr>queue := tl (queue s)\<rparr>"]
  show ?case by (cases "queue s") auto
next
  case (4 queueItem s)
  show ?case by simp
next
  case (5 queueItem s url)
  show ?case by simp
next
  case (6 el s)
  show ?case by (simp add: update_element_def)
qed

declare processQueue.simps [simp del] loadImage.simps [simp del] completeImage.simps [simp del]


section \<open>The scheduler\<close>

text \<open>What \<^verbatim>\<open>processQueue\<close> leaves untouched, its exit condition, and its effect on a
  valid queue in closed form.\<close>


lemma processQueue_frame_all:
  fixes s :: loader and qi :: queueItem and el :: ref
  shows "(processQueue s)\<lparr>queue := [], running := 0, loads := []\<rparr> = s\<lparr>queue := [], running := 0, loads := []\<rparr>"
  "(loadImage qi s)\<lparr>queue := [], running := 0, loads := []\<rparr> = s\<lparr>queue := [], running := 0, loads := []\<rparr>"
  "\<not> truthy (dataset_src (elements s el)) \<longrightarrow>
     (completeImage el s)\<lparr>queue := [], running := 0, loads := []\<rparr> = s\<lparr>queue := [], running := 0, loads := []\<rparr>"
proof (induct s and qi s and el s rule: processQueue_loadImage_completeImage.induct)
  case (1 s)
  show ?case
  proof (cases "running s < maxConcurrent s \<and> queue s \<noteq> []")
    case True
    with 1 show ?thesis by (subst processQueue.simps) simp
  next
    case False
    then show ?thesis by (subst processQueue.simps) auto
  qed
next
  case (2 queueItem s)
  then show ?case
    by (auto simp: loadImage.simps truthy_def split: option.splits)
next
  case (3 el s)
  then show ?case by (cases "truthy (dataset_src (elements s el))") (simp_all add: completeImage.simps)
qed

text \<open>Induction over the iterations of the loop of \<^verbatim>\<open>processQueue\<close> alone.\<close>

lemma processQueue_induct:
  assumes "\<And>s. (running s < maxConcurrent s \<and> queue s \<noteq> [] \<Longrightarrow>
                P (loadImage (hd (queue s)) (s\<lparr>queue := tl (queue s)\<rparr>))) \<Longrightarrow> P s"
  shows "P s"
  using processQueue_loadImage_completeImage.induct(1)
          [where P = P and Q = "\<lambda>_ _. True" and R = "\<lambda>_ _. True"] assms
  by blast

lemma processQueue_exit:
  "\<not> (running (processQueue s) < maxConcurrent (processQueue s) \<and> queue (processQueue s) \<noteq> [])"
proof (induction s rule: processQueue_induct)
  case (1 s)
  show ?case
  proof (cases "running s < maxConcurrent s \<and> queue s \<noteq> []")
    case True
    with 1 show ?thesis by (subst (1 2 3) processQueue.simps) simp
  next
    case False
    then show ?thesis by (subst (1 2 3) processQueue.simps) auto
  qed
qed

lemma loadImage_valid:
  "truthy (dataset_src (elements s (element qi))) \<Longrightarrow>
   loadImage qi s = s\<lparr>running := running s + 1, loads := loads s @ [start_load s qi]\<rparr>"
  by (auto simp: loadImage.simps truthy_def start_load_def split: option.splits)

lemma processQueue_closed:
  "valid_queue s \<longrightarrow> processQueue s =
     s\<lparr>queue := drop (free_slots s) (queue s),
       running := running s + int (free_slots s),
       loads := loads s @ map (start_load s) (take (free_slots s) (queue s))\<rparr>"
proof (induction s rule: processQueue_induct)
  case (1 s)
  show ?case
  proof (cases "running s < maxConcurrent s \<and> queue s \<noteq> []")
    case False
    then have "free_slots s = 0" by (auto simp: free_slots_def)
    with False show ?thesis by (subst processQueue.simps) auto
  next
    case True
    then obtain x xs where q: "queue s = x # xs" by (cases "queue s") auto
    show ?thesis
    proof
      assume v: "valid_queue s"
      let ?s1 = "s\<lparr>queue := xs, running := running s + 1, loads := loads s @ [start_load s x]\<rparr>"
      from v q have tx: "truthy (dataset_src (elements s (element x)))"
        by (simp add: valid_queue_def)
      then have li: "loadImage (hd (queue s)) (s\<lparr>queue := tl (queue s)\<rparr>) = ?s1"
        using q by (simp add: loadImage_valid start_load_def)
      have v1: "valid_queue ?s1" using v q by (simp add: valid_queue_def)
      have n: "free_slots s = Suc (free_slots ?s1)"
        using True q by (auto simp: free_slots_def min_def)
      have sl: "start_load ?s1 = start_load s" by (rule ext) (simp add: start_load_def)
      from 1[OF True] li v1
      have "processQueue ?s1 = ?s1\<lparr>queue := drop (free_slots ?s1) (queue ?s1),
         running := running ?s1 + int (free_slots ?s1),
         loads := loads ?s1 @ map (start_load ?s1) (take (free_slots ?s1) (queue ?s1))\<rparr>"
        by simp
      then have "processQueue s = ?s1\<lparr>queue := drop (free_slots ?s1) (queue ?s1),
         running := running ?s1 + int (free_slots ?s1),
         loads := loads ?s1 @ map (start_load ?s1) (take (free_slots ?s1) (queue ?s1))\<rparr>"
        using True li by (subst processQueue.simps) simp
      then show "processQueue s =
         s\<lparr>queue := drop (free_slots s) (queue s),
           running := running s + int (free_slots s),
           loads := loads s @ map (start_load s) (take (free_slots s) (queue s))\<rparr>"
        unfolding n sl using q by simp
    qed
  qed
qed

section \<open>The invariant\<close>

lemma set_sort_queue [simp]: "set (sort_queue q) = set q"
  by (simp add: sort_queue_def)

lemma mset_sort_queue [simp]: "mset (sort_queue q) = mset q"
  by (simp add: sort_queue_def)

lemma length_sort_queue [simp]: "length (sort_queue q) = length q"
  by (simp add: sort_queue_def)

lemma sorted_sort_queue [simp]: "sorted (map (\<lambda>qi. - priority qi) (sort_queue q))"
  by (simp add: sort_queue_def)

lemma distinct_map_sort_queue [simp]: "distinct (map f (sort_queue q)) = distinct (map f q)"
proof -
  have "mset (map f (sort_queue q)) = mset (map f q)" by simp
  then show ?thesis by (rule mset_eq_imp_distinct_iff)
qed

lemma sort_queue_Nil_iff [simp]: "sort_queue q = [] \<longleftrightarrow> q = []"
  by (metis length_0_conv length_sort_queue)

lemma findIndex_None: "findIndex P xs = None \<longleftrightarrow> (\<forall>x\<in>set xs. \<not> P x)"
  by (induction xs) auto

lemma findIndex_Some: "findIndex P xs = Some i \<Longrightarrow> i < length xs \<and> P (xs ! i)"
  by (induction xs arbitrary: i) (auto split: if_splits)

lemma loader_pre_cong:
  assumes "queue s' = queue s" "running s' = running s" "maxConcurrent s' = maxConcurrent s"
    "length (loads s') = length (loads s)"
    "\<And>r. dataset_src (elements s' r) = dataset_src (elements s r)"
    "\<And>r. elem_id (elements s' r) = elem_id (elements s r)"
  shows "loader_pre s' = loader_pre s"
proof -
  have "target_id s' = target_id s" by (rule ext) (simp add: target_id_def assms)
  then show ?thesis by (simp add: loader_pre_def valid_queue_def assms)
qed

lemma processQueue_pre_inv:
  assumes "loader_pre s"
  shows "loader_inv (processQueue s)"
proof -
  let ?n = "free_slots s"
  let ?s' = "s\<lparr>queue := drop ?n (queue s), running := running s + int ?n,
       loads := loads s @ map (start_load s) (take ?n (queue s))\<rparr>"
  from assms have v: "valid_queue s" by (simp add: loader_pre_def)
  then have eq: "processQueue s = ?s'" using processQueue_closed[of s] by simp
  have n1: "?n \<le> length (queue s)" and n2: "int ?n \<le> maxConcurrent s - running s \<or> ?n = 0"
    by (auto simp: free_slots_def min_def)
  have t: "target_id ?s' = target_id s" by (rule ext) (simp add: target_id_def)
  have "loader_pre ?s'"
    unfolding loader_pre_def t
  proof (intro conjI)
    show "running ?s' = int (length (loads ?s'))" using assms n1 by (simp add: loader_pre_def)
    show "running ?s' \<le> maxConcurrent ?s'" using assms n2 by (auto simp: loader_pre_def)
    show "valid_queue ?s'" using v by (auto simp: valid_queue_def dest: in_set_dropD)
    show "\<forall>qi\<in>set (queue ?s'). target_id s qi \<noteq> []"
      using assms by (auto simp: loader_pre_def dest: in_set_dropD)
    show "distinct (map (target_id s) (queue ?s'))"
      using assms by (simp add: loader_pre_def drop_map[symmetric])
    show "sorted (map (\<lambda>qi. - priority qi) (queue ?s'))"
      using assms by (simp add: loader_pre_def drop_map[symmetric] sorted_wrt_drop)
  qed
  with eq have "loader_pre (processQueue s)" by simp
  with processQueue_exit[of s] show ?thesis by (simp add: loader_inv_def)
qed

lemmas env_defs = update_element_def loadImage_catch_def loadImage_success_def cacheImage_def
  loadImageFromNetwork_def Let_def

lemma loadImage_finally_inv:
  assumes "loader_pre s" "k < length (loads s)"
  shows "loader_inv (loadImage_finally k s)"
proof -
  let ?s1 = "s\<lparr>running := running s - 1, loads := remove_at k (loads s)\<rparr>"
  have t: "target_id ?s1 = target_id s" by (rule ext) (simp add: target_id_def)
  have "length (remove_at k (loads s)) = length (loads s) - 1"
    using assms(2) by (simp add: remove_at_def)
  then have "loader_pre ?s1"
    using assms unfolding loader_pre_def t by (auto simp: valid_queue_def)
  then show ?thesis unfolding loadImage_finally_def by (rule processQueue_pre_inv)
qed

lemma clear_inv: "loader_inv s \<Longrightarrow> loader_inv (clear s)"
  by (simp add: loader_inv_def loader_pre_def clear_def valid_queue_def)

lemma loadImage_cached_inv:
  assumes "loader_inv s"
  shows "\<exists>s'. loadImage_cached k io s = Inr s' \<and> loader_inv s'"
proof (cases "k < length (loads s) \<and> phase (loads s ! k) = AwaitCache")
  case False
  with assms show ?thesis by (auto simp: loadImage_cached_def)
next
  case True
  let ?f = "loads s ! k"
  from assms have pre: "loader_pre s" by (simp add: loader_inv_def)
  have c: "loader_pre (loadImage_catch (item ?f) s)"
    using pre by (subst loader_pre_cong[of _ s]) (simp_all add: env_defs)
  have h: "loader_pre (loadImage_success (element (item ?f))
             (update_element (element (item ?f)) (\<lambda>e. e\<lparr>src := u\<rparr>) s))" for u
    using pre by (subst loader_pre_cong[of _ s]) (simp_all add: env_defs)
  have n: "loader_inv ((loadImageFromNetwork (item ?f) s)
             \<lparr>loads := (loads s)[k := ?f\<lparr>phase := AwaitNetwork (network_url (item ?f) s)\<rparr>]\<rparr>)"
    (is "loader_inv ?sn")
  proof -
    have "loader_pre ?sn = loader_pre s"
      by (rule loader_pre_cong) (simp_all add: env_defs)
    with assms show ?thesis by (simp add: loader_inv_def env_defs)
  qed
  have lc: "length (loads (loadImage_catch (item ?f) s)) = length (loads s)"
    by (simp add: env_defs)
  have lh: "length (loads (loadImage_success (element (item ?f))
             (update_element (element (item ?f)) (\<lambda>e. e\<lparr>src := u\<rparr>) s))) = length (loads s)" for u
    by (simp add: env_defs)
  show ?thesis
    using True n loadImage_finally_inv[OF c] loadImage_finally_inv[OF h] lc lh
    by (auto simp: loadImage_cached_def Let_def split: sum.splits)
qed

lemma loadImage_settled_inv:
  assumes "loader_inv s"
  shows "\<exists>s'. loadImage_settled k ev s = Inr s' \<and> loader_inv s'"
proof (cases "k < length (loads s)")
  case False
  with assms show ?thesis by (auto simp: loadImage_settled_def)
next
  case True
  let ?f = "loads s ! k"
  from assms have pre: "loader_pre s" by (simp add: loader_inv_def)
  have c: "loader_pre (loadImage_catch (item ?f) s)"
    using pre by (subst loader_pre_cong[of _ s]) (simp_all add: env_defs)
  have lc: "length (loads (loadImage_catch (item ?f) s)) = length (loads s)"
    by (simp add: env_defs)
  let ?s1 = "\<lambda>u. update_element (element (item ?f)) (\<lambda>e. e\<lparr>src := resolve_url s u\<rparr>) s"
  let ?ok = "\<lambda>u. loadImage_success (element (item ?f))
               (cacheImage (imageUrl ?f) (src_property (element (item ?f)) (?s1 u)) (?s1 u))"
  have h: "loader_pre (?ok u)" for u
    using pre by (subst loader_pre_cong[of _ s]) (simp_all add: env_defs)
  have lh: "length (loads (?ok u)) = length (loads s)" for u
    by (simp add: env_defs)
  show ?thesis
  proof (cases "phase ?f")
    case AwaitCache
    with True assms show ?thesis by (simp add: loadImage_settled_def Let_def)
  next
    case (AwaitNetwork u)
    show ?thesis
    proof (cases ev)
      case Onload
      with True AwaitNetwork loadImage_finally_inv[OF h[of u]] lh[of u]
      show ?thesis
        by (simp add: loadImage_settled_def Let_def loadImageFromNetwork_settle_def)
    next
      case Onerror
      with True AwaitNetwork loadImage_finally_inv[OF c] lc
      show ?thesis
        by (simp add: loadImage_settled_def Let_def loadImageFromNetwork_settle_def)
    next
      case Timeout
      with True AwaitNetwork loadImage_finally_inv[OF c] lc
      show ?thesis
        by (simp add: loadImage_settled_def Let_def loadImageFromNetwork_settle_def)
    qed
  qed
qed

lemma cacheImage_resume_sched:
  "\<exists>s'. cacheImage_resume k reply s = Inr s' \<and> queue s' = queue s \<and> running s' = running s
     \<and> maxConcurrent s' = maxConcurrent s \<and> loads s' = loads s \<and> elements s' = elements s
     \<and> timers s' = timers s"
  by (auto simp: cacheImage_resume_def cacheImage_try_def Let_def
           split: jobReply.splits jobPhase.splits)

lemma cacheImage_resume_inv:
  assumes "loader_inv s"
  shows "\<exists>s'. cacheImage_resume k reply s = Inr s' \<and> loader_inv s'"
proof -
  from cacheImage_resume_sched[of k reply s] obtain s' where
    s': "cacheImage_resume k reply s = Inr s'" "queue s' = queue s" "running s' = running s"
      "maxConcurrent s' = maxConcurrent s" "loads s' = loads s" "elements s' = elements s"
    by blast
  then have "loader_pre s' = loader_pre s" by (intro loader_pre_cong) simp_all
  with assms s' show ?thesis by (auto simp: loader_inv_def)
qed

lemma map_update_same: "f y = f (xs ! i) \<Longrightarrow> map f (xs[i := y]) = map f xs"
  by (induction xs arbitrary: i) (auto split: nat.splits)

lemma addImage_inv:
  assumes "loader_inv s"
  shows "loader_inv (addImage imgElement p rnd now s)"
proof (cases imgElement)
  case None
  with assms show ?thesis by (simp add: addImage_def)
next
  case (Some el)
  show ?thesis
  proof (cases "truthy (dataset_src (elements s el))")
    case False
    with Some assms show ?thesis by (simp add: addImage_def)
  next
    case True
    define imageId where "imageId = image_id s el rnd"
    define s1 where "s1 = update_element el (\<lambda>e. e\<lparr>elem_id := imageId\<rparr>) s"
    from assms have pre: "loader_pre s" by (simp add: loader_inv_def)
    have id_ne: "imageId \<noteq> []" by (simp add: imageId_def image_id_def)
    have q1: "queue s1 = queue s" "running s1 = running s" "maxConcurrent s1 = maxConcurrent s"
      "loads s1 = loads s" by (simp_all add: s1_def update_element_def)
    have ds1: "dataset_src (elements s1 r) = dataset_src (elements s r)" for r
      by (simp add: s1_def update_element_def)
    have el1: "elem_id (elements s1 el) = imageId" by (simp add: s1_def update_element_def)
    have tq: "target_id s1 qi = target_id s qi" if "qi \<in> set (queue s)" for qi
    proof (cases "element qi = el")
      case False
      then show ?thesis by (simp add: target_id_def s1_def update_element_def)
    next
      case e: True
      from pre that have "target_id s qi \<noteq> []" by (simp add: loader_pre_def)
      with e have "imageId = elem_id (elements s el)"
        by (simp add: imageId_def image_id_def target_id_def)
      with e show ?thesis by (simp add: target_id_def s1_def update_element_def)
    qed
    then have mq: "map (target_id s1) (queue s) = map (target_id s) (queue s)" by simp
    have pre1: "loader_pre s1"
      using pre tq unfolding loader_pre_def q1 mq valid_queue_def ds1 by simp
    show ?thesis
    proof (cases "findIndex (\<lambda>it. elem_id (elements s1 (element it)) = imageId) (queue s1)")
      case (Some i)
      from findIndex_Some[OF Some] have i: "i < length (queue s)" by (simp add: q1)
      let ?q = "(queue s1)[i := (queue s1 ! i)\<lparr>priority := p\<rparr>]"
      let ?s2 = "s1\<lparr>queue := sort_queue ?q\<rparr>"
      have t2: "target_id ?s2 = target_id s1" by (rule ext) (simp add: target_id_def)
      have mm: "map (target_id s1) ?q = map (target_id s1) (queue s1)"
        by (rule map_update_same) (simp add: target_id_def)
      have ee: "map element ?q = map element (queue s1)"
        by (rule map_update_same) simp
      have set_el: "element ` set ?q = element ` set (queue s1)"
        using ee by (metis image_set)
      have set_id: "target_id s1 ` set ?q = target_id s1 ` set (queue s1)"
        using mm by (metis image_set)
      have v2: "valid_queue ?s2"
      proof -
        have "\<forall>r \<in> element ` set ?q. truthy (dataset_src (elements s1 r))"
          unfolding set_el using pre1 by (auto simp: loader_pre_def valid_queue_def)
        then show ?thesis by (auto simp: valid_queue_def)
      qed
      have ne2: "\<forall>qi\<in>set (queue ?s2). target_id s1 qi \<noteq> []"
      proof -
        have "\<forall>x \<in> target_id s1 ` set ?q. x \<noteq> []"
          unfolding set_id using pre1 by (auto simp: loader_pre_def)
        then show ?thesis by auto
      qed
      have "loader_pre ?s2"
        unfolding loader_pre_def t2
        using pre1 v2 ne2 by (simp add: mm) (simp add: loader_pre_def q1)
      moreover have "queue s \<noteq> []" using i by (cases "queue s") simp_all
      ultimately have "loader_inv ?s2" using assms by (simp add: loader_inv_def q1)
      with Some True \<open>imgElement = Some el\<close> show ?thesis
        by (simp add: addImage_def Let_def imageId_def[symmetric] s1_def[symmetric])
    next
      case None
      let ?new = "\<lparr>element = el, priority = p, retries = 0, timestamp = now\<rparr>"
      let ?s2 = "s1\<lparr>queue := sort_queue (queue s1 @ [?new])\<rparr>"
      have t2: "target_id ?s2 = target_id s1" by (rule ext) (simp add: target_id_def)
      from None have fresh: "\<forall>qi\<in>set (queue s). target_id s1 qi \<noteq> imageId"
        by (simp add: findIndex_None q1 target_id_def)
      have tn: "target_id s1 ?new = imageId" by (simp add: target_id_def el1)
      have "loader_pre ?s2"
        unfolding loader_pre_def t2
        using pre1 True fresh tn id_ne
        by (auto simp: loader_pre_def q1 valid_queue_def ds1)
      then have "loader_inv (processQueue ?s2)" by (rule processQueue_pre_inv)
      with None True \<open>imgElement = Some el\<close> show ?thesis
        by (simp add: addImage_def Let_def imageId_def[symmetric] s1_def[symmetric])
    qed
  qed
qed

lemma retry_timer_inv:
  assumes "loader_inv s"
  shows "loader_inv (retry_timer k rnd now s)"
proof (cases "k < length (timers s)")
  case False
  with assms show ?thesis by (simp add: retry_timer_def)
next
  case True
  have "loader_pre (s\<lparr>timers := remove_at k (timers s)\<rparr>) = loader_pre s"
    by (rule loader_pre_cong) simp_all
  with assms have "loader_inv (s\<lparr>timers := remove_at k (timers s)\<rparr>)"
    by (simp add: loader_inv_def)
  then show ?thesis using True by (simp add: retry_timer_def Let_def addImage_inv)
qed

lemma step_inv:
  assumes "loader_inv s"
  shows "\<exists>s'. step s ev = Inr s' \<and> loader_inv s'"
proof (cases ev)
  case (AddImage imgElement p rnd now)
  with assms show ?thesis by (simp add: step_def addImage_inv)
next
  case Clear
  with assms show ?thesis by (simp add: step_def clear_inv)
next
  case (CacheReplied k io)
  with loadImage_cached_inv[OF assms] show ?thesis by (simp add: step_def)
next
  case (ImageSettled k r)
  with loadImage_settled_inv[OF assms] show ?thesis by (simp add: step_def)
next
  case (TimerFired k rnd now)
  with assms show ?thesis by (simp add: step_def retry_timer_inv)
next
  case (JobReplied k reply)
  with cacheImage_resume_inv[OF assms] show ?thesis by (simp add: step_def)
qed

lemma run_inv:
  "loader_inv s \<Longrightarrow> \<exists>s'. run s evs = Inr s' \<and> loader_inv s'"
proof (induction evs arbitrary: s)
  case Nil
  then show ?case by simp
next
  case (Cons ev evs)
  from step_inv[OF Cons.prems] obtain s1 where "step s ev = Inr s1" "loader_inv s1" by blast
  with Cons.IH[of s1] show ?case by simp
qed

lemma constructor_inv:
  "0 \<le> mc \<Longrightarrow> loader_inv (constructor mc document hasCaches store resolve)"
  by (simp add: loader_inv_def loader_pre_def constructor_def valid_queue_def)


section \<open>Configuration\<close>

lemma processQueue_fields [simp]:
  "maxConcurrent (processQueue s) = maxConcurrent s"
  "cacheName (processQueue s) = cacheName s"
  "maxRetries (processQueue s) = maxRetries s"
  "retryDelay (processQueue s) = retryDelay s"
  "elements (processQueue s) = elements s"
  "caches_in_window (processQueue s) = caches_in_window s"
  "cache (processQueue s) = cache s"
  "timers (processQueue s) = timers s"
  "jobs (processQueue s) = jobs s"
  "requests (processQueue s) = requests s"
  using processQueue_frame_all(1)[of s, THEN arg_cong, of maxConcurrent]
    processQueue_frame_all(1)[of s, THEN arg_cong, of cacheName]
    processQueue_frame_all(1)[of s, THEN arg_cong, of maxRetries]
    processQueue_frame_all(1)[of s, THEN arg_cong, of retryDelay]
    processQueue_frame_all(1)[of s, THEN arg_cong, of elements]
    processQueue_frame_all(1)[of s, THEN arg_cong, of caches_in_window]
    processQueue_frame_all(1)[of s, THEN arg_cong, of cache]
    processQueue_frame_all(1)[of s, THEN arg_cong, of timers]
    processQueue_frame_all(1)[of s, THEN arg_cong, of jobs]
    processQueue_frame_all(1)[of s, THEN arg_cong, of requests]
  by simp_all

lemma addImage_config:
  "maxConcurrent (addImage e p rnd now s) = maxConcurrent s"
  "maxRetries (addImage e p rnd now s) = maxRetries s"
  "retryDelay (addImage e p rnd now s) = retryDelay s"
  "cache (addImage e p rnd now s) = cache s"
  "caches_in_window (addImage e p rnd now s) = caches_in_window s"
  by (simp_all add: addImage_def Let_def update_element_def split: option.splits)

lemma step_config:
  assumes "step s ev = Inr s'"
  shows "maxConcurrent s' = maxConcurrent s \<and> maxRetries s' = maxRetries s
    \<and> retryDelay s' = retryDelay s \<and> caches_in_window s' = caches_in_window s"
proof (cases ev)
  case (AddImage e p rnd now)
  with assms show ?thesis by (auto simp: step_def addImage_config)
next
  case Clear
  with assms show ?thesis by (auto simp: step_def clear_def)
next
  case (CacheReplied k io)
  with assms show ?thesis
    by (auto simp: step_def loadImage_cached_def loadImage_finally_def env_defs
             split: if_splits sum.splits)
next
  case (ImageSettled k r)
  with assms show ?thesis
    by (auto simp: step_def loadImage_settled_def loadImage_finally_def env_defs
                   loadImageFromNetwork_settle_def
             split: if_splits sum.splits phase.splits imageEvent.splits)
next
  case (TimerFired k rnd now)
  with assms show ?thesis
    by (cases "k < length (timers s)") (auto simp: step_def retry_timer_def Let_def addImage_config)
next
  case (JobReplied k reply)
  with assms show ?thesis
    by (auto simp: step_def cacheImage_resume_def cacheImage_try_def Let_def
             split: if_splits jobReply.splits jobPhase.splits)
qed

lemma run_config:
  "run s evs = Inr s' \<Longrightarrow> maxConcurrent s' = maxConcurrent s \<and> maxRetries s' = maxRetries s
    \<and> retryDelay s' = retryDelay s \<and> caches_in_window s' = caches_in_window s"
proof (induction evs arbitrary: s)
  case Nil
  then show ?case by simp
next
  case (Cons ev evs)
  then obtain s1 where s1: "step s ev = Inr s1" "run s1 evs = Inr s'"
    by (auto split: sum.splits)
  from step_config[OF s1(1)] Cons.IH[OF s1(2)] show ?case by simp
qed

text \<open>The scheduler only adds suspended loads, and the \<^verbatim>\<open>finally\<close> of \<^verbatim>\<open>loadImage\<close> leaves
  everything but the schedule as it is.\<close>

lemma loads_grow:
  fixes s :: loader and qi :: queueItem and el :: ref
  shows "\<exists>new. loads (processQueue s) = loads s @ new"
    and "\<exists>new. loads (loadImage qi s) = loads s @ new"
    and "\<exists>new. loads (completeImage el s) = loads s @ new"
proof (induct s and qi s and el s rule: processQueue_loadImage_completeImage.induct)
  case (1 s)
  show ?case
  proof (cases "running s < maxConcurrent s \<and> queue s \<noteq> []")
    case True
    from 1(1)[OF True] obtain n1 where
      n1: "loads (loadImage (hd (queue s)) (s\<lparr>queue := tl (queue s)\<rparr>)) = loads s @ n1" by auto
    from 1(2)[OF True] obtain n2 where
      "loads (processQueue (loadImage (hd (queue s)) (s\<lparr>queue := tl (queue s)\<rparr>)))
        = loads (loadImage (hd (queue s)) (s\<lparr>queue := tl (queue s)\<rparr>)) @ n2" by auto
    with n1 True show ?thesis by (subst processQueue.simps) simp
  next
    case False
    then show ?thesis by (subst processQueue.simps) auto
  qed
next
  case (2 queueItem s)
  then show ?case by (auto simp: loadImage.simps split: option.splits)
next
  case (3 el s)
  then show ?case
    by (cases "truthy (dataset_src (elements s el))")
       (simp_all add: completeImage.simps update_element_def)
qed

lemma loadImage_finally_env:
  "elements (loadImage_finally k s) = elements s"
  "timers (loadImage_finally k s) = timers s"
  "requests (loadImage_finally k s) = requests s"
  "cache (loadImage_finally k s) = cache s"
  "jobs (loadImage_finally k s) = jobs s"
  "\<exists>new. loads (loadImage_finally k s) = remove_at k (loads s) @ new"
  using loads_grow(1)[of "s\<lparr>running := running s - 1, loads := remove_at k (loads s)\<rparr>"]
  by (simp_all add: loadImage_finally_def)

section \<open>Bounded concurrency\<close>

text \<open>
  Claim C1. A loader is constructed with a limit that is not negative. After every sequence
  of calls of \<^verbatim>\<open>addImage\<close> and \<^verbatim>\<open>clear\<close>, cache replies, settled image loads, fired retry
  timers and cache-job replies, the handlers have all returned, \<^verbatim>\<open>running\<close> is at least
  zero and at most \<^verbatim>\<open>maxConcurrent\<close>, which is still the constructor's argument, and
  \<^verbatim>\<open>running\<close> is exactly the number of calls of \<^verbatim>\<open>loadImage\<close> that are under way. Every
  queued element still has its \<^verbatim>\<open>data-src\<close>, so the scheduler never takes the path through
  \<^verbatim>\<open>completeImage\<close>, whose decrement has no increment before it. Since the sequence is
  arbitrary, this holds after each of its prefixes; inside a handler the count only falls by
  one when a call that was counted ends, and only rises by one while it is below the limit.
\<close>

theorem bounded_concurrency:
  assumes "0 \<le> mc"
  shows "\<exists>s. run (constructor mc document hasCaches store resolve) evs = Inr s
           \<and> 0 \<le> running s \<and> running s \<le> maxConcurrent s \<and> maxConcurrent s = mc
           \<and> int (length (loads s)) = running s \<and> valid_queue s"
proof -
  from run_inv[OF constructor_inv[OF assms]] obtain s where
    s: "run (constructor mc document hasCaches store resolve) evs = Inr s" "loader_inv s" by blast
  from run_config[OF s(1)] have "maxConcurrent s = mc" by (simp add: constructor_def)
  with s show ?thesis by (auto simp: loader_inv_def loader_pre_def)
qed

theorem bounded_concurrency_witness:
  "(0::int) \<le> 2 \<and>
   (\<exists>s. run (constructor 2 sample_document True Map.empty sample_resolve) sample_events = Inr s
      \<and> 0 \<le> running s \<and> running s \<le> maxConcurrent s \<and> maxConcurrent s = 2
      \<and> int (length (loads s)) = running s \<and> valid_queue s)"
  using bounded_concurrency[of 2 sample_document True Map.empty sample_resolve sample_events] by simp

lemmas eval_defs = addImage_def image_id_def constructor_def sample_resolve_def sample_document_def cover_def
  blank_element_def truthy_def update_element_def Let_def sort_queue_def
  processQueue.simps loadImage.simps completeImage.simps

section \<open>Work conservation\<close>

text \<open>
  Claim C6. When \<^verbatim>\<open>processQueue\<close> returns, it is not the case that a slot is free
  (\<^verbatim>\<open>running < maxConcurrent\<close>) while an entry waits. On a queue of valid entries it starts
  as many loads as there are free slots or waiting entries, whichever is smaller. And after
  every sequence of events from a freshly constructed loader, that is after every submission
  and every completion, no slot is free while an entry waits.
\<close>

theorem work_conservation:
  assumes "0 \<le> mc"
  shows "\<not> (running (processQueue s0) < maxConcurrent (processQueue s0) \<and> queue (processQueue s0) \<noteq> [])
     \<and> (valid_queue s0 \<longrightarrow>
          length (loads (processQueue s0)) =
            length (loads s0) + min (length (queue s0)) (nat (maxConcurrent s0 - running s0)))
     \<and> (\<exists>s. run (constructor mc document hasCaches store resolve) evs = Inr s
          \<and> \<not> (running s < maxConcurrent s \<and> queue s \<noteq> []))"
proof (intro conjI)
  show "\<not> (running (processQueue s0) < maxConcurrent (processQueue s0) \<and> queue (processQueue s0) \<noteq> [])"
    by (rule processQueue_exit)
  show "valid_queue s0 \<longrightarrow>
          length (loads (processQueue s0)) =
            length (loads s0) + min (length (queue s0)) (nat (maxConcurrent s0 - running s0))"
  proof
    assume "valid_queue s0"
    with processQueue_closed[of s0] have "processQueue s0 =
      s0\<lparr>queue := drop (free_slots s0) (queue s0),
         running := running s0 + int (free_slots s0),
         loads := loads s0 @ map (start_load s0) (take (free_slots s0) (queue s0))\<rparr>" by simp
    then have "length (loads (processQueue s0)) =
        length (loads s0) + min (length (queue s0)) (free_slots s0)" by simp
    then show "length (loads (processQueue s0)) =
            length (loads s0) + min (length (queue s0)) (nat (maxConcurrent s0 - running s0))"
      by (simp add: free_slots_def)
  qed
  from run_inv[OF constructor_inv[OF assms]] obtain s where
    "run (constructor mc document hasCaches store resolve) evs = Inr s" "loader_inv s" by blast
  then show "\<exists>s. run (constructor mc document hasCaches store resolve) evs = Inr s
          \<and> \<not> (running s < maxConcurrent s \<and> queue s \<noteq> [])"
    by (auto simp: loader_inv_def)
qed

theorem work_conservation_witness:
  "(0::int) \<le> 2 \<and> valid_queue waiting_state
   \<and> \<not> (running (processQueue waiting_state) < maxConcurrent (processQueue waiting_state)
          \<and> queue (processQueue waiting_state) \<noteq> [])
   \<and> length (loads (processQueue waiting_state)) = 2
   \<and> (\<exists>s. run (constructor 2 sample_document True Map.empty sample_resolve) sample_events = Inr s
          \<and> \<not> (running s < maxConcurrent s \<and> queue s \<noteq> []))"
proof -
  have v: "valid_queue waiting_state"
    by (simp add: valid_queue_def waiting_state_def eval_defs)
  have l: "length (loads waiting_state) + min (length (queue waiting_state))
      (nat (maxConcurrent waiting_state - running waiting_state)) = 2"
    by (simp add: waiting_state_def constructor_def)
  from work_conservation[of 2 waiting_state sample_document True Map.empty sample_resolve sample_events] v l
  show ?thesis by simp
qed

section \<open>Errors\<close>

lemma getCachedImage_returns: "\<exists>v. getCachedImage s io url = Inr v"
  by (auto simp: getCachedImage_def split: sum.splits option.splits)

lemma loadImage_cached_returns: "\<exists>s'. loadImage_cached k io s = Inr s'"
  by (auto simp: loadImage_cached_def Let_def split: sum.splits)

lemma loadImage_settled_returns: "\<exists>s'. loadImage_settled k r s = Inr s'"
  by (auto simp: loadImage_settled_def Let_def split: sum.splits phase.splits)

lemma cacheImage_resume_returns: "\<exists>s'. cacheImage_resume k reply s = Inr s'"
  by (auto simp: cacheImage_resume_def split: sum.splits)

lemma step_returns: "\<exists>s'. step s ev = Inr s'"
  using loadImage_cached_returns loadImage_settled_returns cacheImage_resume_returns
  by (cases ev) (simp_all add: step_def)

lemma run_returns: "\<exists>s'. run s evs = Inr s'"
proof (induction evs arbitrary: s)
  case Nil
  show ?case by simp
next
  case (Cons ev evs)
  from step_returns[of s ev] obtain s1 where "step s ev = Inr s1" by blast
  with Cons[of s1] show ?case by simp
qed

text \<open>
  Claim C9. No handler lets an exception escape, whatever its arguments and whatever the
  cache and the network do: every event of the loop, and so every run, ends normally;
  \<^verbatim>\<open>getCachedImage\<close> returns a value even when a Cache API call throws; the resumptions of
  \<^verbatim>\<open>loadImage\<close> return after a rejected or timed-out load; the resumption of
  \<^verbatim>\<open>cacheImage\<close> returns after a failed fetch or write; \<^verbatim>\<open>initCache\<close> returns; and
  \<^verbatim>\<open>addImage\<close>, for an element or \<^verbatim>\<open>null\<close>, \<^verbatim>\<open>clear\<close> and \<^verbatim>\<open>getQueueStatus\<close> return.
\<close>

theorem errors_recovered_locally:
  "(\<exists>s'. step s ev = Inr s') \<and> (\<exists>s'. run s evs = Inr s')
   \<and> (\<exists>v. getCachedImage s io url = Inr v)
   \<and> (\<exists>s'. loadImage_cached k io s = Inr s')
   \<and> (\<exists>s'. loadImage_settled k r s = Inr s')
   \<and> (\<exists>s'. cacheImage_resume k reply s = Inr s')
   \<and> (\<exists>s'. initCache open_fails s = Inr s')
   \<and> (\<exists>s'. step s (AddImage imgElement p rnd now) = Inr s')
   \<and> step s Clear = Inr (clear s)
   \<and> getQueueStatus s = \<lparr>queued = length (queue s), status_running = running s,
                             status_maxConcurrent = maxConcurrent s\<rparr>"
  using step_returns run_returns getCachedImage_returns loadImage_cached_returns
    loadImage_settled_returns cacheImage_resume_returns
  by (auto simp: initCache_def step_def getQueueStatus_def)

theorem errors_recovered_locally_witness:
  "(\<exists>s'. step cached_state (CacheReplied 0 read_fails) = Inr s')
   \<and> (\<exists>s'. run cached_state [CacheReplied 0 read_fails, ImageSettled 0 Timeout] = Inr s')
   \<and> (\<exists>v. getCachedImage cached_state read_fails ''/img/1.jpg'' = Inr v)
   \<and> (\<exists>s'. loadImage_cached 0 read_fails cached_state = Inr s')
   \<and> (\<exists>s'. loadImage_settled 0 Timeout cached_state = Inr s')
   \<and> (\<exists>s'. cacheImage_resume 0 (Threw FetchError) cached_state = Inr s')
   \<and> (\<exists>s'. initCache True cached_state = Inr s')
   \<and> (\<exists>s'. step cached_state (AddImage None 0 ''k3x'' 10) = Inr s')
   \<and> step cached_state Clear = Inr (clear cached_state)
   \<and> getQueueStatus cached_state =
       \<lparr>queued = length (queue cached_state), status_running = running cached_state,
        status_maxConcurrent = maxConcurrent cached_state\<rparr>"
  using errors_recovered_locally[of cached_state "CacheReplied 0 read_fails"
      "[CacheReplied 0 read_fails, ImageSettled 0 Timeout]" read_fails "''/img/1.jpg''"
      0 Timeout "Threw FetchError" True None 0 "''k3x''" 10]
  by simp

section \<open>Cache first\<close>

text \<open>
  Claim C3. A call of \<^verbatim>\<open>loadImage\<close> waits for \<^verbatim>\<open>getCachedImage\<close>, the Cache API is
  present, none of its calls throws, and the cache holds a response for the call's URL. Then
  the resumption returns, the list of network requests is what it was, the element's
  \<^verbatim>\<open>src\<close> is the object URL of the cached body, and the element carries the class
  \<^verbatim>\<open>image-loaded\<close> and neither \<^verbatim>\<open>image-loading\<close> nor \<^verbatim>\<open>image-error\<close>; no cache job and
  no retry timer is created, and the call is over: it is no longer among the suspended
  loads, which are the others followed by those the scheduler has started.
\<close>

theorem cache_first:
  assumes "k < length (loads s)" and "phase (loads s ! k) = AwaitCache"
    and "caches_in_window s"
    and "\<not> open_throws io" and "\<not> match_throws io" and "\<not> blob_throws io"
    and "cache s (imageUrl (loads s ! k)) = Some body"
  shows "\<exists>s'. loadImage_cached k io s = Inr s' \<and> requests s' = requests s
     \<and> src (elements s' (element (item (loads s ! k)))) = createObjectURL body
     \<and> ''image-loaded'' \<in> classList (elements s' (element (item (loads s ! k))))
     \<and> ''image-loading'' \<notin> classList (elements s' (element (item (loads s ! k))))
     \<and> ''image-error'' \<notin> classList (elements s' (element (item (loads s ! k))))
     \<and> jobs s' = jobs s \<and> timers s' = timers s
     \<and> (\<exists>new. loads s' = remove_at k (loads s) @ new)"
proof -
  have g: "getCachedImage s io (imageUrl (loads s ! k)) = Inr (Some (createObjectURL body))"
    using assms by (simp add: getCachedImage_def getCachedImage_try_def)
  have t: "truthy (Some (createObjectURL body))"
    by (simp add: truthy_def createObjectURL_def)
  let ?x = "loadImage_success (element (item (loads s ! k)))
      (update_element (element (item (loads s ! k))) (\<lambda>e. e\<lparr>src := createObjectURL body\<rparr>) s)"
  have r: "loadImage_cached k io s = Inr (loadImage_finally k ?x)"
    using assms(1,2) g t by (simp add: loadImage_cached_def Let_def)
  have "loads ?x = loads s" by (simp add: loadImage_success_def update_element_def)
  with loadImage_finally_env(6)[of k ?x]
  have "\<exists>new. loads (loadImage_finally k ?x) = remove_at k (loads s) @ new" by simp
  then show ?thesis
    unfolding r
    by (simp add: loadImage_finally_env loadImage_success_def update_element_def)
qed

theorem cache_first_witness:
  "0 < length (loads cached_state) \<and> phase (loads cached_state ! 0) = AwaitCache
   \<and> caches_in_window cached_state
   \<and> \<not> open_throws read_ok \<and> \<not> match_throws read_ok \<and> \<not> blob_throws read_ok
   \<and> cache cached_state (imageUrl (loads cached_state ! 0)) = Some ''JPEG''
   \<and> element (item (loads cached_state ! 0)) = 1
   \<and> (\<exists>s'. loadImage_cached 0 read_ok cached_state = Inr s'
        \<and> requests s' = requests cached_state
        \<and> src (elements s' 1) = ''blob:JPEG''
        \<and> ''image-loaded'' \<in> classList (elements s' 1)
        \<and> ''image-loading'' \<notin> classList (elements s' 1)
        \<and> ''image-error'' \<notin> classList (elements s' 1)
        \<and> jobs s' = jobs cached_state \<and> timers s' = timers cached_state
        \<and> (\<exists>new. loads s' = remove_at 0 (loads cached_state) @ new))"
proof -
  have h: "0 < length (loads cached_state)" "phase (loads cached_state ! 0) = AwaitCache"
    "caches_in_window cached_state"
    "\<not> open_throws read_ok" "\<not> match_throws read_ok" "\<not> blob_throws read_ok"
    "cache cached_state (imageUrl (loads cached_state ! 0)) = Some ''JPEG''"
    "element (item (loads cached_state ! 0)) = 1"
    by (simp_all add: cached_state_def read_ok_def eval_defs)
  from cache_first[OF h(1-7)] h show ?thesis by (simp add: createObjectURL_def)
qed

section \<open>Re-adding and inserting\<close>

text \<open>What \<^verbatim>\<open>addImage\<close> does to a loader between two handlers, for an element whose
  identifier is queued and for one whose identifier is not, and how the stable sort places
  the entries.\<close>

lemma update_element_same_id:
  "update_element el (\<lambda>e. e\<lparr>elem_id := elem_id (elements s el)\<rparr>) s = s"
  by (simp add: update_element_def)

lemma addImage_existing:
  assumes pre: "loader_pre s" and qi: "qi \<in> set (queue s)"
    and same: "target_id s qi = elem_id (elements s el)"
    and src: "truthy (dataset_src (elements s el))"
  shows "\<exists>i. i < length (queue s) \<and> queue s ! i = qi \<and>
    addImage (Some el) p rnd now s = s\<lparr>queue := sort_queue ((queue s)[i := qi\<lparr>priority := p\<rparr>])\<rparr>"
proof -
  from pre qi have ne: "target_id s qi \<noteq> []" by (simp add: loader_pre_def)
  with same have id: "elem_id (elements s el) \<noteq> []" by simp
  let ?P = "\<lambda>it. elem_id (elements s (element it)) = elem_id (elements s el)"
  from qi same have "\<not> (\<forall>x\<in>set (queue s). \<not> ?P x)" by (auto simp: target_id_def)
  then obtain i where i: "findIndex ?P (queue s) = Some i"
    using findIndex_None[of ?P "queue s"] by (cases "findIndex ?P (queue s)") auto
  from findIndex_Some[OF i] have il: "i < length (queue s)" and ip: "?P (queue s ! i)" by simp_all
  from pre have d: "distinct (map (target_id s) (queue s))" by (simp add: loader_pre_def)
  have "queue s ! i = qi"
  proof -
    from d have "inj_on (target_id s) (set (queue s))" by (simp add: distinct_map)
    moreover have "queue s ! i \<in> set (queue s)" using il by simp
    moreover have "target_id s (queue s ! i) = target_id s qi"
      using ip same by (simp add: target_id_def)
    ultimately show ?thesis using qi by (auto dest: inj_onD)
  qed
  moreover have "addImage (Some el) p rnd now s =
      s\<lparr>queue := sort_queue ((queue s)[i := (queue s ! i)\<lparr>priority := p\<rparr>])\<rparr>"
    using src id i by (simp add: addImage_def image_id_def Let_def update_element_same_id)
  ultimately show ?thesis using il by auto
qed

lemma insort_into_sorted_snoc:
  fixes f :: "'a \<Rightarrow> int"
  assumes "sorted (map f q)"
  shows "foldr (insort_key f) q [x] = filter (\<lambda>y. f y \<le> f x) q @ [x] @ filter (\<lambda>y. f x < f y) q"
  using assms
proof (induction q)
  case Nil
  show ?case by simp
next
  case (Cons a q)
  then have IH: "foldr (insort_key f) q [x] = filter (\<lambda>y. f y \<le> f x) q @ [x] @ filter (\<lambda>y. f x < f y) q"
    and le: "\<forall>z\<in>set q. f a \<le> f z" by auto
  show ?case
  proof (cases "f a \<le> f x")
    case True
    then have "\<forall>z\<in>set (filter (\<lambda>y. f y \<le> f x) q @ [x] @ filter (\<lambda>y. f x < f y) q). f a \<le> f z"
      using le by auto
    then show ?thesis using True IH by (simp add: insort_is_Cons del: append_Cons)
  next
    case False
    then have "filter (\<lambda>y. f y \<le> f x) q = []" "filter (\<lambda>y. f x < f y) q = q"
      using le by (auto simp: filter_empty_conv filter_id_conv)
    then show ?thesis using False IH le by (simp add: insort_is_Cons)
  qed
qed

lemma sort_queue_snoc:
  assumes "sorted (map (\<lambda>qi. - priority qi) q)"
  shows "sort_queue (q @ [x]) =
    filter (\<lambda>qi. priority x \<le> priority qi) q @ [x] @ filter (\<lambda>qi. priority qi < priority x) q"
  using insort_into_sorted_snoc[OF assms, of x] by (simp add: sort_queue_def sort_key_def)

lemma sort_queue_stable:
  "filter (\<lambda>qi. priority qi = p) (sort_queue q) = filter (\<lambda>qi. priority qi = p) q"
  using sort_key_stable[of "\<lambda>a. - priority a" "- p" q] by (simp add: sort_queue_def)

lemma sorted_desc_iff:
  "sorted (map (\<lambda>qi. - priority qi) q) \<longleftrightarrow> sorted_wrt (\<lambda>a b. priority b \<le> priority a) q"
  by (simp add: sorted_map)

lemma addImage_fresh:
  assumes pre: "loader_pre s" and src: "truthy (dataset_src (elements s el))"
    and fresh: "\<forall>qi\<in>set (queue s). target_id s qi \<noteq> image_id s el rnd"
  shows "addImage (Some el) p rnd now s =
    processQueue
      ((update_element el (\<lambda>e. e\<lparr>elem_id := image_id s el rnd\<rparr>) s)
         \<lparr>queue := filter (\<lambda>qi. p \<le> priority qi) (queue s)
             @ [\<lparr>element = el, priority = p, retries = 0, timestamp = now\<rparr>]
             @ filter (\<lambda>qi. priority qi < p) (queue s)\<rparr>)"
proof -
  let ?id = "image_id s el rnd"
  let ?s1 = "update_element el (\<lambda>e. e\<lparr>elem_id := ?id\<rparr>) s"
  have q1: "queue ?s1 = queue s" by (simp add: update_element_def)
  have "elem_id (elements ?s1 (element qi)) \<noteq> ?id" if "qi \<in> set (queue s)" for qi
  proof (cases "element qi = el")
    case False
    with fresh that show ?thesis by (simp add: target_id_def update_element_def)
  next
    case True
    from pre that have "target_id s qi \<noteq> []" by (simp add: loader_pre_def)
    with True have "?id = target_id s qi" by (simp add: image_id_def target_id_def)
    with fresh that show ?thesis by auto
  qed
  then have "findIndex (\<lambda>it. elem_id (elements ?s1 (element it)) = ?id) (queue ?s1) = None"
    by (simp add: findIndex_None q1)
  moreover from pre have "sorted (map (\<lambda>qi. - priority qi) (queue s))"
    by (simp add: loader_pre_def)
  ultimately show ?thesis
    using src by (simp add: addImage_def Let_def q1 sort_queue_snoc)
qed

lemma run_busy: "run (constructor 2 sample_document True [''/img/1.jpg'' \<mapsto> ''JPEG''] sample_resolve) busy_events = Inr busy_state"
  by (simp add: busy_events_def busy_state_def cached_state_def step_def)

lemmas busy_defs = busy_state_def cached_state_def waiting_entry_def target_id_def eval_defs

lemma busy_facts:
  "queue busy_state = [waiting_entry]"
  "running busy_state = 2"
  "map (element \<circ> item) (loads busy_state) = [1, 2]"
  "target_id busy_state waiting_entry = elem_id (elements busy_state 3)"
  "truthy (dataset_src (elements busy_state 3))"
  "truthy (dataset_src (elements busy_state 4))"
  "target_id busy_state waiting_entry \<noteq> image_id busy_state 4 ''k3w''"
  by (simp_all add: busy_defs)

section \<open>One entry per target\<close>

text \<open>
  Claim C4. After every sequence of events from a freshly constructed loader (limit not
  negative), the identifiers of the queued elements are pairwise different. If then
  \<^verbatim>\<open>addImage\<close> is called for an element with a \<^verbatim>\<open>data-src\<close> whose identifier is that of a
  queued entry, the queue afterwards holds the same entries except that this one carries the
  new priority, the identifiers are still pairwise different, and no load is started: the
  suspended calls, \<^verbatim>\<open>running\<close> and the network requests are unchanged.
\<close>

theorem one_entry_per_target:
  assumes "0 \<le> mc"
  shows "\<exists>s. run (constructor mc document hasCaches store resolve) evs = Inr s
      \<and> distinct (map (target_id s) (queue s))
      \<and> (\<forall>el qi p rnd now.
            qi \<in> set (queue s) \<and> target_id s qi = elem_id (elements s el)
              \<and> truthy (dataset_src (elements s el)) \<longrightarrow>
            mset (queue (addImage (Some el) p rnd now s))
              = add_mset (qi\<lparr>priority := p\<rparr>) (mset (queue s) - {#qi#})
            \<and> distinct (map (target_id (addImage (Some el) p rnd now s))
                 (queue (addImage (Some el) p rnd now s)))
            \<and> loads (addImage (Some el) p rnd now s) = loads s
            \<and> running (addImage (Some el) p rnd now s) = running s
            \<and> requests (addImage (Some el) p rnd now s) = requests s)"
proof -
  from run_inv[OF constructor_inv[OF assms]] obtain s where
    s: "run (constructor mc document hasCaches store resolve) evs = Inr s" and inv: "loader_inv s" by blast
  from inv have pre: "loader_pre s" by (simp add: loader_inv_def)
  have "mset (queue (addImage (Some el) p rnd now s))
              = add_mset (qi\<lparr>priority := p\<rparr>) (mset (queue s) - {#qi#})
            \<and> distinct (map (target_id (addImage (Some el) p rnd now s))
                 (queue (addImage (Some el) p rnd now s)))
            \<and> loads (addImage (Some el) p rnd now s) = loads s
            \<and> running (addImage (Some el) p rnd now s) = running s
            \<and> requests (addImage (Some el) p rnd now s) = requests s"
    if h: "qi \<in> set (queue s)" "target_id s qi = elem_id (elements s el)"
      "truthy (dataset_src (elements s el))" for el qi p rnd now
  proof -
    from addImage_existing[OF pre h, of p rnd now] obtain i where
      i: "i < length (queue s)" "queue s ! i = qi"
      and a: "addImage (Some el) p rnd now s =
         s\<lparr>queue := sort_queue ((queue s)[i := qi\<lparr>priority := p\<rparr>])\<rparr>" by blast
    from addImage_inv[OF inv, of "Some el" p rnd now]
    have "distinct (map (target_id (addImage (Some el) p rnd now s))
                 (queue (addImage (Some el) p rnd now s)))"
      by (simp add: loader_inv_def loader_pre_def)
    moreover have "mset (queue (addImage (Some el) p rnd now s))
              = add_mset (qi\<lparr>priority := p\<rparr>) (mset (queue s) - {#qi#})"
      using i by (simp add: a mset_update)
    ultimately show ?thesis by (simp add: a)
  qed
  with s inv show ?thesis by (auto simp: loader_inv_def loader_pre_def)
qed

theorem one_entry_per_target_witness:
  "(0::int) \<le> 2
   \<and> run (constructor 2 sample_document True [''/img/1.jpg'' \<mapsto> ''JPEG''] sample_resolve) busy_events = Inr busy_state
   \<and> distinct (map (target_id busy_state) (queue busy_state))
   \<and> waiting_entry \<in> set (queue busy_state)
   \<and> target_id busy_state waiting_entry = elem_id (elements busy_state 3)
   \<and> truthy (dataset_src (elements busy_state 3))
   \<and> queue (addImage (Some 3) 5 ''k3v'' 14 busy_state) = [waiting_entry\<lparr>priority := 5\<rparr>]
   \<and> distinct (map (target_id (addImage (Some 3) 5 ''k3v'' 14 busy_state))
        (queue (addImage (Some 3) 5 ''k3v'' 14 busy_state)))
   \<and> loads (addImage (Some 3) 5 ''k3v'' 14 busy_state) = loads busy_state
   \<and> running (addImage (Some 3) 5 ''k3v'' 14 busy_state) = 2
   \<and> requests (addImage (Some 3) 5 ''k3v'' 14 busy_state) = requests busy_state"
proof -
  have z: "(0::int) \<le> 2" by simp
  from one_entry_per_target[of 2 sample_document True "[''/img/1.jpg'' \<mapsto> ''JPEG'']" sample_resolve
      busy_events, OF z]
  obtain s where s: "run (constructor 2 sample_document True [''/img/1.jpg'' \<mapsto> ''JPEG''] sample_resolve) busy_events = Inr s"
    and d0: "distinct (map (target_id s) (queue s))"
    and a0: "\<forall>el qi p rnd now.
            qi \<in> set (queue s) \<and> target_id s qi = elem_id (elements s el)
              \<and> truthy (dataset_src (elements s el)) \<longrightarrow>
            mset (queue (addImage (Some el) p rnd now s))
              = add_mset (qi\<lparr>priority := p\<rparr>) (mset (queue s) - {#qi#})
            \<and> distinct (map (target_id (addImage (Some el) p rnd now s))
                 (queue (addImage (Some el) p rnd now s)))
            \<and> loads (addImage (Some el) p rnd now s) = loads s
            \<and> running (addImage (Some el) p rnd now s) = running s
            \<and> requests (addImage (Some el) p rnd now s) = requests s"
    by (elim exE conjE)
  from s run_busy have sb: "s = busy_state" by simp
  from d0 sb have d: "distinct (map (target_id busy_state) (queue busy_state))" by simp
  from a0 sb have a: "qi \<in> set (queue busy_state) \<and> target_id busy_state qi = elem_id (elements busy_state el)
              \<and> truthy (dataset_src (elements busy_state el)) \<Longrightarrow>
            mset (queue (addImage (Some el) p rnd now busy_state))
              = add_mset (qi\<lparr>priority := p\<rparr>) (mset (queue busy_state) - {#qi#})
            \<and> distinct (map (target_id (addImage (Some el) p rnd now busy_state))
                 (queue (addImage (Some el) p rnd now busy_state)))
            \<and> loads (addImage (Some el) p rnd now busy_state) = loads busy_state
            \<and> running (addImage (Some el) p rnd now busy_state) = running busy_state
            \<and> requests (addImage (Some el) p rnd now busy_state) = requests busy_state"
    for el qi p rnd now by blast
  have h: "waiting_entry \<in> set (queue busy_state) \<and> target_id busy_state waiting_entry = elem_id (elements busy_state 3)
              \<and> truthy (dataset_src (elements busy_state 3))"
    using busy_facts by simp
  from a[OF h, of 5 "''k3v''" 14]
  have "mset (queue (addImage (Some 3) 5 ''k3v'' 14 busy_state)) = {#waiting_entry\<lparr>priority := 5\<rparr>#}"
    and r: "distinct (map (target_id (addImage (Some 3) 5 ''k3v'' 14 busy_state))
                 (queue (addImage (Some 3) 5 ''k3v'' 14 busy_state)))"
      "loads (addImage (Some 3) 5 ''k3v'' 14 busy_state) = loads busy_state"
      "running (addImage (Some 3) 5 ''k3v'' 14 busy_state) = 2"
      "requests (addImage (Some 3) 5 ''k3v'' 14 busy_state) = requests busy_state"
    by (simp_all add: busy_facts)
  then have "queue (addImage (Some 3) 5 ''k3v'' 14 busy_state) = [waiting_entry\<lparr>priority := 5\<rparr>]"
    by (metis mset_single_iff_right mset.simps(2) mset.simps(1))
  with d h r run_busy show ?thesis by simp
qed

section \<open>Priority order\<close>

text \<open>
  Claim C5, as stated, fails: element 3 is added with priority 3 at time 12 and element 4
  with priority 5 at time 13 while both slots are taken; element 4 is added again with
  priority 3. Both wait with priority 3, element 4 stands first although element 3 was
  submitted first, and when a slot becomes free element 4 is the one dispatched.
\<close>

theorem first_submitted_counterexample:
  "map_sum id (\<lambda>s. map (\<lambda>qi. (element qi, priority qi, timestamp qi)) (queue s))
     (run (constructor 2 sample_document True [''/img/1.jpg'' \<mapsto> ''JPEG''] sample_resolve) reprioritise_events)
     = Inr [(4, 3, 13), (3, 3, 12)]
   \<and> map_sum id (\<lambda>s. (map (element \<circ> item) (loads s), map element (queue s)))
       (run (constructor 2 sample_document True [''/img/1.jpg'' \<mapsto> ''JPEG''] sample_resolve)
          (reprioritise_events @ [CacheReplied 0 read_ok]))
     = Inr ([2, 4], [3])"
  by code_simp

text \<open>
  Claim C5, amended. After every sequence of events the queue is sorted by descending
  priority. A scheduler step on a valid, sorted queue starts the entries of a prefix of the
  queue, in queue order, and every entry it starts has a priority at least that of every
  entry it leaves waiting; so a strictly higher priority is dispatched no later, and among
  equal priorities the entry standing earlier in the queue goes first. An element whose
  identifier is not queued is inserted behind every entry of higher or equal priority and
  before every entry of lower priority. An element whose identifier is queued gets the new
  priority in place, and the stable sort keeps, among the entries of each priority, the
  order they had in the array: the re-prioritised entry keeps its array position relative
  to the entries of its new priority, whichever of them was submitted first.
\<close>

theorem priority_order:
  assumes "0 \<le> mc"
  shows "\<exists>s. run (constructor mc document hasCaches store resolve) evs = Inr s
     \<and> sorted_wrt (\<lambda>a b. priority b \<le> priority a) (queue s)
     \<and> (\<forall>s0. valid_queue s0 \<and> sorted_wrt (\<lambda>a b. priority b \<le> priority a) (queue s0) \<longrightarrow>
          (\<exists>n. loads (processQueue s0) = loads s0 @ map (start_load s0) (take n (queue s0))
             \<and> queue (processQueue s0) = drop n (queue s0)
             \<and> (\<forall>a\<in>set (take n (queue s0)). \<forall>b\<in>set (drop n (queue s0)).
                   priority b \<le> priority a)))
     \<and> (\<forall>el p rnd now.
           truthy (dataset_src (elements s el))
             \<and> (\<forall>qi\<in>set (queue s). target_id s qi \<noteq> image_id s el rnd) \<longrightarrow>
           addImage (Some el) p rnd now s =
             processQueue
               ((update_element el (\<lambda>e. e\<lparr>elem_id := image_id s el rnd\<rparr>) s)
                  \<lparr>queue := filter (\<lambda>qi. p \<le> priority qi) (queue s)
                      @ [\<lparr>element = el, priority = p, retries = 0, timestamp = now\<rparr>]
                      @ filter (\<lambda>qi. priority qi < p) (queue s)\<rparr>))
     \<and> (\<forall>el qi p rnd now.
           qi \<in> set (queue s) \<and> target_id s qi = elem_id (elements s el)
             \<and> truthy (dataset_src (elements s el)) \<longrightarrow>
           (\<exists>i. i < length (queue s) \<and> queue s ! i = qi
              \<and> (\<forall>p'. filter (\<lambda>x. priority x = p') (queue (addImage (Some el) p rnd now s))
                      = filter (\<lambda>x. priority x = p') ((queue s)[i := qi\<lparr>priority := p\<rparr>]))))"
proof -
  from run_inv[OF constructor_inv[OF assms]] obtain s where
    s: "run (constructor mc document hasCaches store resolve) evs = Inr s" and inv: "loader_inv s" by blast
  from inv have pre: "loader_pre s" by (simp add: loader_inv_def)
  have a: "sorted_wrt (\<lambda>a b. priority b \<le> priority a) (queue s)"
    using pre by (simp add: loader_pre_def sorted_desc_iff)
  have b: "\<exists>n. loads (processQueue s0) = loads s0 @ map (start_load s0) (take n (queue s0))
             \<and> queue (processQueue s0) = drop n (queue s0)
             \<and> (\<forall>a\<in>set (take n (queue s0)). \<forall>b\<in>set (drop n (queue s0)).
                   priority b \<le> priority a)"
    if v: "valid_queue s0" and so: "sorted_wrt (\<lambda>a b. priority b \<le> priority a) (queue s0)" for s0
  proof -
    from v processQueue_closed[of s0] have eq: "processQueue s0 =
      s0\<lparr>queue := drop (free_slots s0) (queue s0),
         running := running s0 + int (free_slots s0),
         loads := loads s0 @ map (start_load s0) (take (free_slots s0) (queue s0))\<rparr>" by simp
    have "sorted_wrt (\<lambda>a b. priority b \<le> priority a)
        (take (free_slots s0) (queue s0) @ drop (free_slots s0) (queue s0))"
      using so by simp
    then have "\<forall>a\<in>set (take (free_slots s0) (queue s0)).
        \<forall>b\<in>set (drop (free_slots s0) (queue s0)). priority b \<le> priority a"
      unfolding sorted_wrt_append by blast
    with eq show ?thesis by (intro exI[of _ "free_slots s0"]) simp
  qed
  have c: "addImage (Some el) p rnd now s =
             processQueue
               ((update_element el (\<lambda>e. e\<lparr>elem_id := image_id s el rnd\<rparr>) s)
                  \<lparr>queue := filter (\<lambda>qi. p \<le> priority qi) (queue s)
                      @ [\<lparr>element = el, priority = p, retries = 0, timestamp = now\<rparr>]
                      @ filter (\<lambda>qi. priority qi < p) (queue s)\<rparr>)"
    if "truthy (dataset_src (elements s el))"
      "\<forall>qi\<in>set (queue s). target_id s qi \<noteq> image_id s el rnd" for el p rnd now
    using addImage_fresh[OF pre that] .
  have d: "\<exists>i. i < length (queue s) \<and> queue s ! i = qi
              \<and> (\<forall>p'. filter (\<lambda>x. priority x = p') (queue (addImage (Some el) p rnd now s))
                      = filter (\<lambda>x. priority x = p') ((queue s)[i := qi\<lparr>priority := p\<rparr>]))"
    if "qi \<in> set (queue s)" "target_id s qi = elem_id (elements s el)"
      "truthy (dataset_src (elements s el))" for el qi p rnd now
  proof -
    from addImage_existing[OF pre that, of p rnd now] obtain i where
      i: "i < length (queue s)" "queue s ! i = qi"
      and e: "addImage (Some el) p rnd now s =
         s\<lparr>queue := sort_queue ((queue s)[i := qi\<lparr>priority := p\<rparr>])\<rparr>" by blast
    then show ?thesis by (intro exI[of _ i]) (simp add: sort_queue_stable)
  qed
  from s a b c d show ?thesis by blast
qed

theorem priority_order_witness:
  "(0::int) \<le> 2
   \<and> run (constructor 2 sample_document True [''/img/1.jpg'' \<mapsto> ''JPEG''] sample_resolve) busy_events = Inr busy_state
   \<and> sorted_wrt (\<lambda>a b. priority b \<le> priority a) (queue busy_state)
   \<and> valid_queue waiting_state
   \<and> sorted_wrt (\<lambda>a b. priority b \<le> priority a) (queue waiting_state)
   \<and> (\<exists>n. loads (processQueue waiting_state)
              = loads waiting_state @ map (start_load waiting_state) (take n (queue waiting_state))
          \<and> queue (processQueue waiting_state) = drop n (queue waiting_state)
          \<and> (\<forall>a\<in>set (take n (queue waiting_state)). \<forall>b\<in>set (drop n (queue waiting_state)).
                priority b \<le> priority a))
   \<and> truthy (dataset_src (elements busy_state 4))
   \<and> queue busy_state = [waiting_entry]
   \<and> target_id busy_state waiting_entry \<noteq> image_id busy_state 4 ''k3w''
   \<and> addImage (Some 4) 3 ''k3w'' 13 busy_state =
       processQueue
         ((update_element 4 (\<lambda>e. e\<lparr>elem_id := image_id busy_state 4 ''k3w''\<rparr>) busy_state)
            \<lparr>queue := [waiting_entry, \<lparr>element = 4, priority = 3, retries = 0, timestamp = 13\<rparr>]\<rparr>)
   \<and> target_id busy_state waiting_entry = elem_id (elements busy_state 3)
   \<and> truthy (dataset_src (elements busy_state 3))
   \<and> (\<exists>i. i < length (queue busy_state) \<and> queue busy_state ! i = waiting_entry
        \<and> (\<forall>p'. filter (\<lambda>x. priority x = p') (queue (addImage (Some 3) 5 ''k3v'' 14 busy_state))
                = filter (\<lambda>x. priority x = p') ((queue busy_state)[i := waiting_entry\<lparr>priority := 5\<rparr>])))"
proof -
  have z: "(0::int) \<le> 2" by simp
  from priority_order[of 2 sample_document True "[''/img/1.jpg'' \<mapsto> ''JPEG'']" sample_resolve
      busy_events, OF z]
  obtain s where s: "run (constructor 2 sample_document True [''/img/1.jpg'' \<mapsto> ''JPEG''] sample_resolve) busy_events = Inr s"
    and a0: "sorted_wrt (\<lambda>a b. priority b \<le> priority a) (queue s)"
    and b0: "\<forall>s0. valid_queue s0 \<and> sorted_wrt (\<lambda>a b. priority b \<le> priority a) (queue s0) \<longrightarrow>
          (\<exists>n. loads (processQueue s0) = loads s0 @ map (start_load s0) (take n (queue s0))
             \<and> queue (processQueue s0) = drop n (queue s0)
             \<and> (\<forall>a\<in>set (take n (queue s0)). \<forall>b\<in>set (drop n (queue s0)).
                   priority b \<le> priority a))"
    and c0: "\<forall>el p rnd now.
           truthy (dataset_src (elements s el))
             \<and> (\<forall>qi\<in>set (queue s). target_id s qi \<noteq> image_id s el rnd) \<longrightarrow>
           addImage (Some el) p rnd now s =
             processQueue
               ((update_element el (\<lambda>e. e\<lparr>elem_id := image_id s el rnd\<rparr>) s)
                  \<lparr>queue := filter (\<lambda>qi. p \<le> priority qi) (queue s)
                      @ [\<lparr>element = el, priority = p, retries = 0, timestamp = now\<rparr>]
                      @ filter (\<lambda>qi. priority qi < p) (queue s)\<rparr>)"
    and d0: "\<forall>el qi p rnd now.
           qi \<in> set (queue s) \<and> target_id s qi = elem_id (elements s el)
             \<and> truthy (dataset_src (elements s el)) \<longrightarrow>
           (\<exists>i. i < length (queue s) \<and> queue s ! i = qi
              \<and> (\<forall>p'. filter (\<lambda>x. priority x = p') (queue (addImage (Some el) p rnd now s))
                      = filter (\<lambda>x. priority x = p') ((queue s)[i := qi\<lparr>priority := p\<rparr>])))"
    by (elim exE conjE)
  from s run_busy have sb: "s = busy_state" by simp
  have v: "valid_queue waiting_state"
    by (simp add: valid_queue_def waiting_state_def eval_defs)
  have w: "sorted_wrt (\<lambda>a b. priority b \<le> priority a) (queue waiting_state)"
    by (simp add: waiting_state_def)
  from b0 v w have b: "\<exists>n. loads (processQueue waiting_state)
              = loads waiting_state @ map (start_load waiting_state) (take n (queue waiting_state))
          \<and> queue (processQueue waiting_state) = drop n (queue waiting_state)
          \<and> (\<forall>a\<in>set (take n (queue waiting_state)). \<forall>b\<in>set (drop n (queue waiting_state)).
                priority b \<le> priority a)" by blast
  have f: "\<forall>qi\<in>set (queue busy_state). target_id busy_state qi \<noteq> image_id busy_state 4 ''k3w''"
    using busy_facts by simp
  from c0[unfolded sb, rule_format, of 4 "''k3w''" 3 13] busy_facts(6) f
  have c: "addImage (Some 4) 3 ''k3w'' 13 busy_state =
       processQueue
         ((update_element 4 (\<lambda>e. e\<lparr>elem_id := image_id busy_state 4 ''k3w''\<rparr>) busy_state)
            \<lparr>queue := [waiting_entry, \<lparr>element = 4, priority = 3, retries = 0, timestamp = 13\<rparr>]\<rparr>)"
    by (simp add: busy_facts(1) waiting_entry_def)
  from d0[unfolded sb, rule_format, of waiting_entry 3 5 "''k3v''" 14] busy_facts
  have d: "\<exists>i. i < length (queue busy_state) \<and> queue busy_state ! i = waiting_entry
        \<and> (\<forall>p'. filter (\<lambda>x. priority x = p') (queue (addImage (Some 3) 5 ''k3v'' 14 busy_state))
                = filter (\<lambda>x. priority x = p') ((queue busy_state)[i := waiting_entry\<lparr>priority := 5\<rparr>]))"
    by simp
  from a0 sb have a: "sorted_wrt (\<lambda>a b. priority b \<le> priority a) (queue busy_state)" by simp
  show ?thesis
    using z run_busy a v w b busy_facts(6) busy_facts(1) busy_facts(7) c busy_facts(4) busy_facts(5) d
    by (intro conjI)
qed

section \<open>Clearing the queue\<close>

lemma getCachedImage_clear [simp]:
  "getCachedImage (clear s) io url = getCachedImage s io url"
  by (simp add: getCachedImage_def getCachedImage_try_def clear_def)

lemma env_clear:
  "loadImage_catch qi (clear s) = clear (loadImage_catch qi s)"
  "loadImage_success el (clear s) = clear (loadImage_success el s)"
  "update_element el f (clear s) = clear (update_element el f s)"
  "cacheImage url u (clear s) = clear (cacheImage url u s)"
  "loadImageFromNetwork qi (clear s) = clear (loadImageFromNetwork qi s)"
  "network_url qi (clear s) = network_url qi s"
  "src_property el (clear s) = src_property el s"
  "resolve_url (clear s) = resolve_url s"
  by (simp_all add: env_defs clear_def network_url_def src_property_def)

lemma clear_fields [simp]:
  "elements (clear s) = elements s" "timers (clear s) = timers s"
  "requests (clear s) = requests s" "cache (clear s) = cache s" "jobs (clear s) = jobs s"
  "loads (clear s) = loads s" "running (clear s) = running s" "queue (clear s) = []"
  by (simp_all add: clear_def)

lemma loadImage_cached_clear:
  "\<exists>a b new. loadImage_cached k io (clear s) = Inr a \<and> loadImage_cached k io s = Inr b
     \<and> elements a = elements b \<and> timers a = timers b \<and> requests a = requests b
     \<and> cache a = cache b \<and> jobs a = jobs b \<and> loads b = loads a @ new"
proof (cases "k < length (loads s) \<and> phase (loads s ! k) = AwaitCache")
  case False
  then show ?thesis by (auto simp: loadImage_cached_def)
next
  case True
  let ?f = "loads s ! k"
  obtain v where g: "getCachedImage s io (imageUrl ?f) = Inr v"
    using getCachedImage_returns by blast
  show ?thesis
  proof (cases "truthy v")
    case t: True
    let ?x = "loadImage_success (element (item ?f))
                (update_element (element (item ?f)) (\<lambda>e. e\<lparr>src := the v\<rparr>) s)"
    have a: "loadImage_cached k io (clear s) = Inr (loadImage_finally k (clear ?x))"
      and b: "loadImage_cached k io s = Inr (loadImage_finally k ?x)"
      using True g t by (simp_all add: loadImage_cached_def Let_def env_clear)
    have lx: "loads ?x = loads s" by (simp add: env_defs)
    have "loadImage_finally k (clear ?x) = ?x\<lparr>queue := [], running := running s - 1,
        loads := remove_at k (loads s)\<rparr>"
      by (subst loadImage_finally_def, subst processQueue.simps) (simp add: clear_def env_defs)
    moreover from loadImage_finally_env(6)[of k ?x] obtain new where
      "loads (loadImage_finally k ?x) = remove_at k (loads s) @ new" by (auto simp: lx)
    ultimately show ?thesis
      unfolding a b by (simp add: loadImage_finally_env)
  next
    case f: False
    with True g show ?thesis
      by (simp add: loadImage_cached_def Let_def env_clear)
  qed
qed


lemma loadImage_settled_clear:
  "\<exists>a b new. loadImage_settled k ev (clear s) = Inr a \<and> loadImage_settled k ev s = Inr b
     \<and> elements a = elements b \<and> timers a = timers b \<and> requests a = requests b
     \<and> cache a = cache b \<and> jobs a = jobs b \<and> loads b = loads a @ new"
proof (cases "k < length (loads s)")
  case False
  then show ?thesis by (auto simp: loadImage_settled_def)
next
  case True
  let ?f = "loads s ! k"
  show ?thesis
  proof (cases "phase ?f")
    case AwaitCache
    with True show ?thesis by (simp add: loadImage_settled_def Let_def)
  next
    case (AwaitNetwork u)
    define x where "x = (case ev of
        Onload \<Rightarrow> loadImage_success (element (item ?f))
          (cacheImage (imageUrl ?f)
             (src_property (element (item ?f))
                (update_element (element (item ?f)) (\<lambda>e. e\<lparr>src := resolve_url s u\<rparr>) s))
             (update_element (element (item ?f)) (\<lambda>e. e\<lparr>src := resolve_url s u\<rparr>) s))
      | _ \<Rightarrow> loadImage_catch (item ?f) s)"
    have a: "loadImage_settled k ev (clear s) = Inr (loadImage_finally k (clear x))"
      and b: "loadImage_settled k ev s = Inr (loadImage_finally k x)"
      using True AwaitNetwork
      by (cases ev; simp add: x_def loadImage_settled_def Let_def env_clear
            loadImageFromNetwork_settle_def)+
    have lx: "loads x = loads s" by (cases ev) (simp_all add: x_def env_defs)
    have "loadImage_finally k (clear x) = x\<lparr>queue := [], running := running x - 1,
        loads := remove_at k (loads s)\<rparr>"
      by (subst loadImage_finally_def, subst processQueue.simps) (simp add: clear_def lx)
    moreover from loadImage_finally_env(6)[of k x] obtain new where
      "loads (loadImage_finally k x) = remove_at k (loads s) @ new" by (auto simp: lx)
    ultimately show ?thesis
      unfolding a b by (simp add: loadImage_finally_env)
  qed
qed

text \<open>
  Claim C8. \<^verbatim>\<open>clear\<close> empties the queue and changes no other field: putting the old queue
  back gives the old state, so \<^verbatim>\<open>running\<close>, the configuration, the cache, the suspended
  loads and the timers are what they were. A load that is under way ends the same way with
  and without the call: whichever way its cache lookup or its network load settles, the
  resumption returns in both states and leaves the same elements, retry timers, network
  requests, cache and cache jobs; the suspended loads agree except for those the uncleared
  queue starts in the freed slot.
\<close>

theorem clear_isolation:
  "queue (clear s) = [] \<and> (clear s)\<lparr>queue := queue s\<rparr> = s
   \<and> running (clear s) = running s \<and> maxConcurrent (clear s) = maxConcurrent s
   \<and> maxRetries (clear s) = maxRetries s \<and> retryDelay (clear s) = retryDelay s
   \<and> cache (clear s) = cache s \<and> loads (clear s) = loads s \<and> timers (clear s) = timers s
   \<and> (\<exists>a b new. loadImage_cached k io (clear s) = Inr a \<and> loadImage_cached k io s = Inr b
        \<and> elements a = elements b \<and> timers a = timers b \<and> requests a = requests b
        \<and> cache a = cache b \<and> jobs a = jobs b \<and> loads b = loads a @ new)
   \<and> (\<exists>a b new. loadImage_settled k' ev (clear s) = Inr a \<and> loadImage_settled k' ev s = Inr b
        \<and> elements a = elements b \<and> timers a = timers b \<and> requests a = requests b
        \<and> cache a = cache b \<and> jobs a = jobs b \<and> loads b = loads a @ new)"
  using loadImage_cached_clear[of k io s] loadImage_settled_clear[of k' ev s]
  by (simp add: clear_def)

theorem clear_isolation_witness:
  "queue (clear (sample_run crowded_events)) = []
   \<and> queue (sample_run crowded_events) = [waiting_entry]
   \<and> running (clear (sample_run crowded_events)) = 2
   \<and> map phase (loads (clear (sample_run crowded_events)))
       = [AwaitNetwork ''/img/1.jpg'', AwaitCache]
   \<and> (\<exists>a b new. loadImage_cached 1 read_ok (clear (sample_run crowded_events)) = Inr a
        \<and> loadImage_cached 1 read_ok (sample_run crowded_events) = Inr b
        \<and> elements a = elements b \<and> timers a = timers b \<and> requests a = requests b
        \<and> cache a = cache b \<and> jobs a = jobs b \<and> loads b = loads a @ new)
   \<and> (\<exists>a b new. loadImage_settled 0 Timeout (clear (sample_run crowded_events)) = Inr a
        \<and> loadImage_settled 0 Timeout (sample_run crowded_events) = Inr b
        \<and> elements a = elements b \<and> timers a = timers b \<and> requests a = requests b
        \<and> cache a = cache b \<and> jobs a = jobs b \<and> loads b = loads a @ new)"
proof -
  have "queue (sample_run crowded_events) = [waiting_entry]"
    "running (sample_run crowded_events) = 2"
    "map phase (loads (sample_run crowded_events)) = [AwaitNetwork ''/img/1.jpg'', AwaitCache]"
    by code_simp+
  with clear_isolation[of "sample_run crowded_events" 1 read_ok 0 Timeout]
  show ?thesis by simp
qed

section \<open>Populating the cache\<close>

text \<open>
  Claim C10. Neither the start of \<^verbatim>\<open>cacheImage\<close> nor any of its resumptions changes the
  queue, \<^verbatim>\<open>running\<close> or the suspended loads, and the start issues no request. For a source
  that starts with \<^verbatim>\<open>data:\<close> it does nothing. After a successful network load the element's
  attribute is the resolved form of the URL the image was loaded from, and
  \<^verbatim>\<open>cacheImage\<close> receives what the element's \<^verbatim>\<open>src\<close> property then returns, the resolved
  form of that attribute. If this string does not start with \<^verbatim>\<open>data:\<close> and the Cache API is
  present, the resumption of \<^verbatim>\<open>loadImage\<close> leaves a cache job for it, keyed by the
  \<^verbatim>\<open>data-src\<close> string; if it does start with \<^verbatim>\<open>data:\<close>, no job is left. In neither case is
  a request sent at that point. When the job's \<^verbatim>\<open>caches.open\<close> returns, it sends a request
  of its own for its source, with \<^verbatim>\<open>running\<close>, the queue and the suspended loads
  unchanged; and when its \<^verbatim>\<open>cache.put\<close> returns, the cache holds the fetched body under
  the key.
\<close>

theorem cache_population_uncounted:
  "queue (cacheImage url src0 s) = queue s \<and> running (cacheImage url src0 s) = running s
   \<and> loads (cacheImage url src0 s) = loads s \<and> requests (cacheImage url src0 s) = requests s
   \<and> (\<exists>s'. cacheImage_resume j reply s = Inr s' \<and> queue s' = queue s \<and> running s' = running s
         \<and> loads s' = loads s)
   \<and> (take 5 src0 = ''data:'' \<longrightarrow> cacheImage url src0 s = s)
   \<and> (caches_in_window s \<and> take 5 src0 \<noteq> ''data:'' \<longrightarrow>
         jobs (cacheImage url src0 s)
           = jobs s @ [\<lparr>job_url = url, job_src = src0, job_phase = AwaitOpen\<rparr>])
   \<and> (k < length (loads s) \<and> phase (loads s ! k) = AwaitNetwork u \<and> caches_in_window s
         \<and> take 5 (resolve_url s (resolve_url s u)) \<noteq> ''data:'' \<longrightarrow>
         (\<exists>s'. loadImage_settled k Onload s = Inr s' \<and> requests s' = requests s
            \<and> src (elements s' (element (item (loads s ! k)))) = resolve_url s u
            \<and> jobs s' = jobs s @ [\<lparr>job_url = imageUrl (loads s ! k),
                                    job_src = resolve_url s (resolve_url s u),
                                    job_phase = AwaitOpen\<rparr>]))
   \<and> (k < length (loads s) \<and> phase (loads s ! k) = AwaitNetwork u
         \<and> take 5 (resolve_url s (resolve_url s u)) = ''data:'' \<longrightarrow>
         (\<exists>s'. loadImage_settled k Onload s = Inr s' \<and> requests s' = requests s
            \<and> src (elements s' (element (item (loads s ! k)))) = resolve_url s u
            \<and> jobs s' = jobs s))
   \<and> (j < length (jobs s) \<and> job_phase (jobs s ! j) = AwaitOpen \<longrightarrow>
         (\<exists>s'. cacheImage_resume j Opened s = Inr s'
            \<and> requests s' = requests s @ [job_src (jobs s ! j)]
            \<and> running s' = running s \<and> queue s' = queue s \<and> loads s' = loads s))
   \<and> (j < length (jobs s) \<and> job_phase (jobs s ! j) = AwaitPut body \<longrightarrow>
         (\<exists>s'. cacheImage_resume j Stored s = Inr s'
            \<and> cache s' = (cache s)(job_url (jobs s ! j) \<mapsto> body)))"
proof (intro conjI impI)
  show "\<exists>s'. cacheImage_resume j reply s = Inr s' \<and> queue s' = queue s \<and> running s' = running s
         \<and> loads s' = loads s"
    using cacheImage_resume_sched[of j reply s] by blast
next
  assume "k < length (loads s) \<and> phase (loads s ! k) = AwaitNetwork u \<and> caches_in_window s
         \<and> take 5 (resolve_url s (resolve_url s u)) \<noteq> ''data:''"
  then show "\<exists>s'. loadImage_settled k Onload s = Inr s' \<and> requests s' = requests s
            \<and> src (elements s' (element (item (loads s ! k)))) = resolve_url s u
            \<and> jobs s' = jobs s @ [\<lparr>job_url = imageUrl (loads s ! k),
                                    job_src = resolve_url s (resolve_url s u),
                                    job_phase = AwaitOpen\<rparr>]"
    by (simp add: loadImage_settled_def Let_def loadImageFromNetwork_settle_def
          src_property_def loadImage_finally_env env_defs)
next
  assume "k < length (loads s) \<and> phase (loads s ! k) = AwaitNetwork u
         \<and> take 5 (resolve_url s (resolve_url s u)) = ''data:''"
  then show "\<exists>s'. loadImage_settled k Onload s = Inr s' \<and> requests s' = requests s
            \<and> src (elements s' (element (item (loads s ! k)))) = resolve_url s u
            \<and> jobs s' = jobs s"
    by (simp add: loadImage_settled_def Let_def loadImageFromNetwork_settle_def
          src_property_def loadImage_finally_env env_defs)
qed (simp_all add: cacheImage_def cacheImage_resume_def cacheImage_try_def Let_def)

lemma loading_facts:
  "phase (loads (sample_run loading_events) ! 0) = AwaitNetwork ''/img/1.jpg''"
  "length (loads (sample_run loading_events)) = 1"
  "caches_in_window (sample_run loading_events)"
  "requests (sample_run loading_events) = [''/img/1.jpg'']"
  "jobs (sample_run loading_events) = []"
  "imageUrl (loads (sample_run loading_events) ! 0) = ''/img/1.jpg''"
  "element (item (loads (sample_run loading_events) ! 0)) = 1"
  "resolve_url (sample_run loading_events) ''/img/1.jpg'' = ''http://localhost/img/1.jpg''"
  "resolve_url (sample_run loading_events) (resolve_url (sample_run loading_events) ''/img/1.jpg'')
     = ''http://localhost/img/1.jpg''"
  "resolve_url (sample_run loading_events) ''http://localhost/img/1.jpg''
     = ''http://localhost/img/1.jpg''"
  by code_simp+

lemma inline_facts:
  "phase (loads (sample_run inline_events) ! 0) = AwaitNetwork ''DATA:image/gif;base64,R0lG''"
  "length (loads (sample_run inline_events)) = 1"
  "requests (sample_run inline_events) = [''DATA:image/gif;base64,R0lG'']"
  "jobs (sample_run inline_events) = []"
  "element (item (loads (sample_run inline_events) ! 0)) = 5"
  "resolve_url (sample_run inline_events) ''DATA:image/gif;base64,R0lG''
     = ''data:image/gif;base64,R0lG''"
  "resolve_url (sample_run inline_events)
     (resolve_url (sample_run inline_events) ''DATA:image/gif;base64,R0lG'')
     = ''data:image/gif;base64,R0lG''"
  "resolve_url (sample_run inline_events) ''data:image/gif;base64,R0lG''
     = ''data:image/gif;base64,R0lG''"
  by code_simp+

lemma loaded_facts:
  "job_phase (jobs (sample_run (loading_events @ [ImageSettled 0 Onload])) ! 0) = AwaitOpen"
  "job_src (jobs (sample_run (loading_events @ [ImageSettled 0 Onload])) ! 0)
     = ''http://localhost/img/1.jpg''"
  "length (jobs (sample_run (loading_events @ [ImageSettled 0 Onload]))) = 1"
  "requests (sample_run (loading_events @ [ImageSettled 0 Onload])) = [''/img/1.jpg'']"
  "running (sample_run (loading_events @ [ImageSettled 0 Onload])) = 0"
  by code_simp+

lemma storing_facts:
  "job_phase (jobs (sample_run storing_events) ! 0) = AwaitPut ''JPEG''"
  "job_url (jobs (sample_run storing_events) ! 0) = ''/img/1.jpg''"
  "length (jobs (sample_run storing_events)) = 1"
  by code_simp+

theorem cache_population_uncounted_witness:
  "take 5 ''data:image/png;base64,iVBOR'' = ''data:''
   \<and> cacheImage ''/img/1.jpg'' ''data:image/png;base64,iVBOR'' (sample_run loading_events)
       = sample_run loading_events
   \<and> 0 < length (loads (sample_run loading_events))
   \<and> phase (loads (sample_run loading_events) ! 0) = AwaitNetwork ''/img/1.jpg''
   \<and> caches_in_window (sample_run loading_events)
   \<and> resolve_url (sample_run loading_events)
         (resolve_url (sample_run loading_events) ''/img/1.jpg'') = ''http://localhost/img/1.jpg''
   \<and> take 5 ''http://localhost/img/1.jpg'' \<noteq> ''data:''
   \<and> (\<exists>s'. loadImage_settled 0 Onload (sample_run loading_events) = Inr s'
         \<and> requests s' = [''/img/1.jpg'']
         \<and> src (elements s' 1) = ''http://localhost/img/1.jpg''
         \<and> jobs s' = [\<lparr>job_url = ''/img/1.jpg'', job_src = ''http://localhost/img/1.jpg'',
                         job_phase = AwaitOpen\<rparr>])
   \<and> 0 < length (loads (sample_run inline_events))
   \<and> phase (loads (sample_run inline_events) ! 0) = AwaitNetwork ''DATA:image/gif;base64,R0lG''
   \<and> take 5 ''DATA:image/gif;base64,R0lG'' \<noteq> ''data:''
   \<and> resolve_url (sample_run inline_events)
         (resolve_url (sample_run inline_events) ''DATA:image/gif;base64,R0lG'')
       = ''data:image/gif;base64,R0lG''
   \<and> take 5 ''data:image/gif;base64,R0lG'' = ''data:''
   \<and> (\<exists>s'. loadImage_settled 0 Onload (sample_run inline_events) = Inr s'
         \<and> requests s' = [''DATA:image/gif;base64,R0lG'']
         \<and> src (elements s' 5) = ''data:image/gif;base64,R0lG''
         \<and> jobs s' = [])
   \<and> 0 < length (jobs (sample_run (loading_events @ [ImageSettled 0 Onload])))
   \<and> job_phase (jobs (sample_run (loading_events @ [ImageSettled 0 Onload])) ! 0) = AwaitOpen
   \<and> (\<exists>s'. cacheImage_resume 0 Opened (sample_run (loading_events @ [ImageSettled 0 Onload])) = Inr s'
         \<and> requests s' = [''/img/1.jpg'', ''http://localhost/img/1.jpg'']
         \<and> running s' = 0)
   \<and> 0 < length (jobs (sample_run storing_events))
   \<and> job_phase (jobs (sample_run storing_events) ! 0) = AwaitPut ''JPEG''
   \<and> (\<exists>s'. cacheImage_resume 0 Stored (sample_run storing_events) = Inr s'
         \<and> cache s' = (cache (sample_run storing_events))(''/img/1.jpg'' \<mapsto> ''JPEG''))"
proof -
  let ?a = "sample_run loading_events"
  let ?b = "sample_run (loading_events @ [ImageSettled 0 Onload])"
  let ?c = "sample_run storing_events"
  let ?d = "sample_run inline_events"
  have d: "take 5 ''data:image/png;base64,iVBOR'' = ''data:''"
    "take 5 ''http://localhost/img/1.jpg'' \<noteq> ''data:''"
    "take 5 ''DATA:image/gif;base64,R0lG'' \<noteq> ''data:''"
    "take 5 ''data:image/gif;base64,R0lG'' = ''data:''"
    by simp_all
  note A = cache_population_uncounted[of "''/img/1.jpg''" "''data:image/png;base64,iVBOR''" ?a
      0 Opened 0 "''/img/1.jpg''" "''JPEG''"]
  note B = cache_population_uncounted[of "''/img/1.jpg''" "''/img/1.jpg''" ?b
      0 Opened 0 "''/img/1.jpg''" "''JPEG''"]
  note C = cache_population_uncounted[of "''/img/1.jpg''" "''/img/1.jpg''" ?c
      0 Stored 0 "''/img/1.jpg''" "''JPEG''"]
  note D = cache_population_uncounted[of "''/img/1.jpg''" "''/img/1.jpg''" ?d
      0 Opened 0 "''DATA:image/gif;base64,R0lG''" "''JPEG''"]
  from A d have a1: "cacheImage ''/img/1.jpg'' ''data:image/png;base64,iVBOR'' ?a = ?a" by blast
  from A have a0: "0 < length (loads ?a) \<and> phase (loads ?a ! 0) = AwaitNetwork ''/img/1.jpg''
         \<and> caches_in_window ?a
         \<and> take 5 (resolve_url ?a (resolve_url ?a ''/img/1.jpg'')) \<noteq> ''data:'' \<longrightarrow>
         (\<exists>s'. loadImage_settled 0 Onload ?a = Inr s' \<and> requests s' = requests ?a
            \<and> src (elements s' (element (item (loads ?a ! 0)))) = resolve_url ?a ''/img/1.jpg''
            \<and> jobs s' = jobs ?a @ [\<lparr>job_url = imageUrl (loads ?a ! 0),
                                    job_src = resolve_url ?a (resolve_url ?a ''/img/1.jpg''),
                                    job_phase = AwaitOpen\<rparr>])" by blast
  have "0 < length (loads ?a) \<and> phase (loads ?a ! 0) = AwaitNetwork ''/img/1.jpg''
         \<and> caches_in_window ?a
         \<and> take 5 (resolve_url ?a (resolve_url ?a ''/img/1.jpg'')) \<noteq> ''data:''"
    using loading_facts by simp
  with a0 have "\<exists>s'. loadImage_settled 0 Onload ?a = Inr s' \<and> requests s' = requests ?a
            \<and> src (elements s' (element (item (loads ?a ! 0)))) = resolve_url ?a ''/img/1.jpg''
            \<and> jobs s' = jobs ?a @ [\<lparr>job_url = imageUrl (loads ?a ! 0),
                                    job_src = resolve_url ?a (resolve_url ?a ''/img/1.jpg''),
                                    job_phase = AwaitOpen\<rparr>]" by blast
  then have a2: "\<exists>s'. loadImage_settled 0 Onload ?a = Inr s'
         \<and> requests s' = [''/img/1.jpg'']
         \<and> src (elements s' 1) = ''http://localhost/img/1.jpg''
         \<and> jobs s' = [\<lparr>job_url = ''/img/1.jpg'', job_src = ''http://localhost/img/1.jpg'',
                         job_phase = AwaitOpen\<rparr>]"
    by (simp add: loading_facts)
  from D have d0: "0 < length (loads ?d)
         \<and> phase (loads ?d ! 0) = AwaitNetwork ''DATA:image/gif;base64,R0lG''
         \<and> take 5 (resolve_url ?d (resolve_url ?d ''DATA:image/gif;base64,R0lG'')) = ''data:''
         \<longrightarrow>
         (\<exists>s'. loadImage_settled 0 Onload ?d = Inr s' \<and> requests s' = requests ?d
            \<and> src (elements s' (element (item (loads ?d ! 0))))
                = resolve_url ?d ''DATA:image/gif;base64,R0lG''
            \<and> jobs s' = jobs ?d)" by blast
  have "0 < length (loads ?d)
         \<and> phase (loads ?d ! 0) = AwaitNetwork ''DATA:image/gif;base64,R0lG''
         \<and> take 5 (resolve_url ?d (resolve_url ?d ''DATA:image/gif;base64,R0lG'')) = ''data:''"
    using inline_facts by simp
  with d0 have "\<exists>s'. loadImage_settled 0 Onload ?d = Inr s' \<and> requests s' = requests ?d
            \<and> src (elements s' (element (item (loads ?d ! 0))))
                = resolve_url ?d ''DATA:image/gif;base64,R0lG''
            \<and> jobs s' = jobs ?d" by blast
  then have d1: "\<exists>s'. loadImage_settled 0 Onload ?d = Inr s'
         \<and> requests s' = [''DATA:image/gif;base64,R0lG'']
         \<and> src (elements s' 5) = ''data:image/gif;base64,R0lG''
         \<and> jobs s' = []"
    by (simp add: inline_facts)
  from B have b0: "0 < length (jobs ?b) \<and> job_phase (jobs ?b ! 0) = AwaitOpen \<longrightarrow>
         (\<exists>s'. cacheImage_resume 0 Opened ?b = Inr s'
            \<and> requests s' = requests ?b @ [job_src (jobs ?b ! 0)]
            \<and> running s' = running ?b \<and> queue s' = queue ?b \<and> loads s' = loads ?b)" by blast
  have "0 < length (jobs ?b) \<and> job_phase (jobs ?b ! 0) = AwaitOpen"
    using loaded_facts by simp
  with b0 have "\<exists>s'. cacheImage_resume 0 Opened ?b = Inr s'
            \<and> requests s' = requests ?b @ [job_src (jobs ?b ! 0)]
            \<and> running s' = running ?b \<and> queue s' = queue ?b \<and> loads s' = loads ?b" by blast
  then have b1: "\<exists>s'. cacheImage_resume 0 Opened ?b = Inr s'
         \<and> requests s' = [''/img/1.jpg'', ''http://localhost/img/1.jpg''] \<and> running s' = 0"
    by (auto simp: loaded_facts)
  from C have c0: "0 < length (jobs ?c) \<and> job_phase (jobs ?c ! 0) = AwaitPut ''JPEG'' \<longrightarrow>
         (\<exists>s'. cacheImage_resume 0 Stored ?c = Inr s'
            \<and> cache s' = (cache ?c)(job_url (jobs ?c ! 0) \<mapsto> ''JPEG''))" by blast
  have "0 < length (jobs ?c) \<and> job_phase (jobs ?c ! 0) = AwaitPut ''JPEG''"
    using storing_facts by simp
  with c0 have "\<exists>s'. cacheImage_resume 0 Stored ?c = Inr s'
            \<and> cache s' = (cache ?c)(job_url (jobs ?c ! 0) \<mapsto> ''JPEG'')" by blast
  then have c1: "\<exists>s'. cacheImage_resume 0 Stored ?c = Inr s'
         \<and> cache s' = (cache ?c)(''/img/1.jpg'' \<mapsto> ''JPEG'')"
    by (simp add: storing_facts)
  have l: "0 < length (loads ?a)" "0 < length (jobs ?b)" "0 < length (jobs ?c)"
    "0 < length (loads ?d)"
    using loading_facts loaded_facts storing_facts inline_facts by simp_all
  show ?thesis
    using d(1) a1 l(1) loading_facts(1,3,9) d(2) a2 l(4) inline_facts(1) d(3) inline_facts(7) d(4) d1
      l(2) loaded_facts(1) b1 l(3) storing_facts(1) c1
    by (intro conjI)
qed

section \<open>Retries\<close>

text \<open>
  Every entry that \<^verbatim>\<open>addImage\<close> pushes has \<^verbatim>\<open>retries = 0\<close>, also the one pushed by the
  retry timer; the \<^verbatim>\<open>catch\<close> of \<^verbatim>\<open>loadImage\<close> increments the count of the entry it has
  just taken from the queue, which nothing reads again. So from a freshly constructed loader
  the count is zero at every failure: the branch that shows the default picture is never
  taken, and every retry waits \<^verbatim>\<open>retryDelay * 2\<close> milliseconds.
\<close>

lemma processQueue_fresh_retries:
  fixes s :: loader and qi :: queueItem and el :: ref
  shows "fresh_retries s \<longrightarrow> fresh_retries (processQueue s)"
    and "fresh_retries s \<and> retries qi = 0 \<longrightarrow> fresh_retries (loadImage qi s)"
    and "fresh_retries s \<longrightarrow> fresh_retries (completeImage el s)"
proof (induct s and qi s and el s rule: processQueue_loadImage_completeImage.induct)
  case (1 s)
  show ?case
  proof (cases "running s < maxConcurrent s \<and> queue s \<noteq> []")
    case False
    then show ?thesis by (subst processQueue.simps) auto
  next
    case True
    then obtain x xs where q: "queue s = x # xs" by (cases "queue s") auto
    show ?thesis
    proof
      assume f: "fresh_retries s"
      with q have "fresh_retries (s\<lparr>queue := tl (queue s)\<rparr>) \<and> retries (hd (queue s)) = 0"
        by (simp add: fresh_retries_def)
      with 1(1)[OF True] have "fresh_retries (loadImage (hd (queue s)) (s\<lparr>queue := tl (queue s)\<rparr>))"
        by blast
      with 1(2)[OF True] show "fresh_retries (processQueue s)"
        using True by (subst processQueue.simps) simp
    qed
  qed
next
  case (2 queueItem s)
  show ?case
  proof (cases "dataset_src (elements s (element queueItem))")
    case None
    with 2(1) show ?thesis by (simp add: loadImage.simps)
  next
    case (Some url)
    show ?thesis
    proof (cases "url = []")
      case True
      with Some 2(2) show ?thesis by (simp add: loadImage.simps)
    next
      case False
      with Some show ?thesis by (simp add: loadImage.simps fresh_retries_def)
    qed
  qed
next
  case (3 el s)
  have "fresh_retries s \<Longrightarrow> fresh_retries
     ((if truthy (dataset_src (elements s el))
       then update_element el (\<lambda>e. e\<lparr>dataset_src := None\<rparr>) s else s)\<lparr>running := running s - 1\<rparr>)"
    by (simp add: fresh_retries_def update_element_def)
  with 3 show ?case by (simp add: completeImage.simps)
qed

lemma set_remove_at: "set (remove_at k xs) \<subseteq> set xs"
  by (auto simp: remove_at_def dest: in_set_takeD in_set_dropD)

lemma loadImage_finally_fresh_retries:
  assumes "fresh_retries s"
  shows "fresh_retries (loadImage_finally k s)"
proof -
  have "fresh_retries (s\<lparr>running := running s - 1, loads := remove_at k (loads s)\<rparr>)"
    using assms set_remove_at[of k "loads s"] unfolding fresh_retries_def by (simp add: subset_iff)
  then show ?thesis
    unfolding loadImage_finally_def using processQueue_fresh_retries(1) by blast
qed

lemma loadImage_catch_fresh_retries:
  assumes "fresh_retries s" "retries qi = 0"
  shows "fresh_retries (loadImage_catch qi s)"
  using assms by (simp add: loadImage_catch_def fresh_retries_def Let_def)

lemma retries_update:
  assumes "\<forall>qi\<in>set q. retries qi = 0"
  shows "\<forall>qi\<in>set (q[i := (q ! i)\<lparr>priority := p\<rparr>]). retries qi = 0"
proof (cases "i < length q")
  case True
  then have "q ! i \<in> set q" by simp
  with assms have "retries ((q ! i)\<lparr>priority := p\<rparr>) = 0" by simp
  with assms set_update_subset_insert[of q i "(q ! i)\<lparr>priority := p\<rparr>"]
  show ?thesis by blast
next
  case False
  with assms show ?thesis by (simp add: list_update_beyond)
qed

lemma addImage_fresh_retries:
  assumes "fresh_retries s"
  shows "fresh_retries (addImage e p rnd now s)"
proof (cases e)
  case None
  with assms show ?thesis by (simp add: addImage_def)
next
  case (Some el)
  let ?s1 = "update_element el (\<lambda>e. e\<lparr>elem_id := image_id s el rnd\<rparr>) s"
  have f1: "fresh_retries ?s1" using assms by (simp add: fresh_retries_def update_element_def)
  have q1: "queue ?s1 = queue s" by (simp add: update_element_def)
  show ?thesis
  proof (cases "truthy (dataset_src (elements s el))")
    case False
    with Some assms show ?thesis by (simp add: addImage_def)
  next
    case True
    show ?thesis
    proof (cases "findIndex (\<lambda>it. elem_id (elements ?s1 (element it)) = image_id s el rnd) (queue ?s1)")
      case (Some i)
      from assms have "\<forall>qi\<in>set (queue s). retries qi = 0" by (simp add: fresh_retries_def)
      from retries_update[OF this, of i p] f1
      have "fresh_retries (?s1\<lparr>queue := sort_queue ((queue s)[i := (queue s ! i)\<lparr>priority := p\<rparr>])\<rparr>)"
        by (simp add: fresh_retries_def)
      with Some True \<open>e = Some el\<close> show ?thesis
        by (simp add: addImage_def Let_def q1)
    next
      case None
      have "fresh_retries (?s1\<lparr>queue := sort_queue (queue s @
          [\<lparr>element = el, priority = p, retries = 0, timestamp = now\<rparr>])\<rparr>)"
        using f1 by (simp add: fresh_retries_def q1)
      with processQueue_fresh_retries(1) have "fresh_retries (processQueue
         (?s1\<lparr>queue := sort_queue (queue s @
          [\<lparr>element = el, priority = p, retries = 0, timestamp = now\<rparr>])\<rparr>))" by blast
      with None True \<open>e = Some el\<close> show ?thesis
        by (simp add: addImage_def Let_def q1)
    qed
  qed
qed


lemma loadImage_cached_fresh_retries:
  assumes "fresh_retries s" "loadImage_cached k io s = Inr s'"
  shows "fresh_retries s'"
proof (cases "k < length (loads s) \<and> phase (loads s ! k) = AwaitCache")
  case False
  with assms show ?thesis by (auto simp: loadImage_cached_def)
next
  case True
  let ?f = "loads s ! k"
  from True have "?f \<in> set (loads s)" by simp
  with assms(1) have r0: "retries (item ?f) = 0" by (simp add: fresh_retries_def)
  obtain v where g: "getCachedImage s io (imageUrl ?f) = Inr v"
    using getCachedImage_returns by blast
  show ?thesis
  proof (cases "truthy v")
    case t: True
    have "fresh_retries (loadImage_success (element (item ?f))
                (update_element (element (item ?f)) (\<lambda>e. e\<lparr>src := the v\<rparr>) s))"
      using assms(1) by (simp add: fresh_retries_def loadImage_success_def update_element_def)
    from loadImage_finally_fresh_retries[OF this, of k] True g t assms(2)
    show ?thesis by (simp add: loadImage_cached_def Let_def)
  next
    case f: False
    have "\<forall>x\<in>set ((loads s)[k := ?f\<lparr>phase := AwaitNetwork (network_url (item ?f) s)\<rparr>]).
        retries (item x) = 0"
    proof
      fix x assume "x \<in> set ((loads s)[k := ?f\<lparr>phase := AwaitNetwork (network_url (item ?f) s)\<rparr>])"
      then have "x = ?f\<lparr>phase := AwaitNetwork (network_url (item ?f) s)\<rparr> \<or> x \<in> set (loads s)"
        using set_update_subset_insert by fastforce
      with r0 assms(1) show "retries (item x) = 0" by (auto simp: fresh_retries_def)
    qed
    then have "fresh_retries ((loadImageFromNetwork (item ?f) s)
             \<lparr>loads := (loads s)[k := ?f\<lparr>phase := AwaitNetwork (network_url (item ?f) s)\<rparr>]\<rparr>)"
      using assms(1) by (simp add: fresh_retries_def loadImageFromNetwork_def update_element_def)
    with True g f assms(2) show ?thesis by (simp add: loadImage_cached_def Let_def)
  qed
qed

lemma loadImage_settled_fresh_retries:
  assumes "fresh_retries s" "loadImage_settled k ev s = Inr s'"
  shows "fresh_retries s'"
proof (cases "k < length (loads s)")
  case False
  with assms show ?thesis by (auto simp: loadImage_settled_def)
next
  case True
  let ?f = "loads s ! k"
  from True have "?f \<in> set (loads s)" by simp
  with assms(1) have r0: "retries (item ?f) = 0" by (simp add: fresh_retries_def)
  show ?thesis
  proof (cases "phase ?f")
    case AwaitCache
    with True assms show ?thesis by (simp add: loadImage_settled_def Let_def)
  next
    case (AwaitNetwork u)
    have c: "fresh_retries (loadImage_finally k (loadImage_catch (item ?f) s))"
      by (rule loadImage_finally_fresh_retries, rule loadImage_catch_fresh_retries) fact+
    have "fresh_retries (loadImage_success (element (item ?f))
          (cacheImage (imageUrl ?f) x
             (update_element (element (item ?f)) (\<lambda>e. e\<lparr>src := resolve_url s u\<rparr>) s)))" for x
      using assms(1)
      by (simp add: fresh_retries_def loadImage_success_def cacheImage_def update_element_def)
    from loadImage_finally_fresh_retries[OF this, of k] c True AwaitNetwork assms(2)
    show ?thesis
      by (cases ev) (auto simp: loadImage_settled_def Let_def loadImageFromNetwork_settle_def)
  qed
qed

lemma step_fresh_retries:
  assumes "fresh_retries s" "step s ev = Inr s'"
  shows "fresh_retries s'"
proof (cases ev)
  case (AddImage e p rnd now)
  with assms addImage_fresh_retries show ?thesis by (auto simp: step_def)
next
  case Clear
  with assms show ?thesis by (auto simp: step_def clear_def fresh_retries_def)
next
  case (CacheReplied k io)
  with assms loadImage_cached_fresh_retries show ?thesis by (auto simp: step_def)
next
  case (ImageSettled k r)
  with assms loadImage_settled_fresh_retries show ?thesis by (auto simp: step_def)
next
  case (TimerFired k rnd now)
  have "fresh_retries (s\<lparr>timers := remove_at k (timers s)\<rparr>)"
    using assms(1) set_remove_at[of k "timers s"] unfolding fresh_retries_def
    by (simp add: subset_iff)
  from addImage_fresh_retries[OF this] TimerFired assms show ?thesis
    by (cases "k < length (timers s)") (auto simp: step_def retry_timer_def Let_def)
next
  case (JobReplied k reply)
  from cacheImage_resume_sched[of k reply s] JobReplied assms(2)
  have "queue s' = queue s" "loads s' = loads s" "elements s' = elements s"
    "timers s' = timers s"
    by (auto simp: step_def)
  moreover from step_config[OF assms(2)]
  have "maxRetries s' = maxRetries s" "retryDelay s' = retryDelay s" by simp_all
  ultimately show ?thesis using assms(1) by (simp add: fresh_retries_def)
qed

lemma run_fresh_retries:
  "fresh_retries s \<Longrightarrow> run s evs = Inr s' \<Longrightarrow> fresh_retries s'"
proof (induction evs arbitrary: s)
  case Nil
  then show ?case by simp
next
  case (Cons ev evs)
  then obtain s1 where s1: "step s ev = Inr s1" "run s1 evs = Inr s'"
    by (auto split: sum.splits)
  from Cons.IH[OF step_fresh_retries[OF Cons.prems(1) s1(1)] s1(2)] show ?case .
qed

lemma error_state_unreachable:
  assumes "\<forall>r. ''image-error'' \<notin> classList (document r)"
    and "run (constructor mc document hasCaches store resolve) evs = Inr s"
  shows "''image-error'' \<notin> classList (elements s r)"
    and "\<forall>t\<in>set (timers s). delay t = 1000"
proof -
  have "fresh_retries (constructor mc document hasCaches store resolve)"
    using assms(1) by (simp add: fresh_retries_def constructor_def)
  from run_fresh_retries[OF this assms(2)] have f: "fresh_retries s" .
  then show "''image-error'' \<notin> classList (elements s r)" by (simp add: fresh_retries_def)
  from run_config[OF assms(2)] have "retryDelay s = 500" by (simp add: constructor_def)
  with f show "\<forall>t\<in>set (timers s). delay t = 1000" by (simp add: fresh_retries_def)
qed

text \<open>What one failure below the limit does: it sets a timer for
  \<^verbatim>\<open>retryDelay * 2^retries\<close> milliseconds, the count read after its increment, and the
  timer calls \<^verbatim>\<open>addImage\<close> for the same element with the priority lowered by one.\<close>

lemma retry_schedule:
  assumes "retries qi < maxRetries s"
  shows "loadImage_catch qi s =
      s\<lparr>timers := timers s @
          [\<lparr>callback = qi\<lparr>retries := retries qi + 1\<rparr>,
            delay = retryDelay s * 2 ^ (retries qi + 1)\<rparr>]\<rparr>"
    and "retry_timer (length (timers s)) rnd now (loadImage_catch qi s) =
      addImage (Some (element qi)) (priority qi - 1) rnd now s"
proof -
  show a: "loadImage_catch qi s =
      s\<lparr>timers := timers s @
          [\<lparr>callback = qi\<lparr>retries := retries qi + 1\<rparr>,
            delay = retryDelay s * 2 ^ (retries qi + 1)\<rparr>]\<rparr>"
    using assms by (simp add: loadImage_catch_def Let_def)
  show "retry_timer (length (timers s)) rnd now (loadImage_catch qi s) =
      addImage (Some (element qi)) (priority qi - 1) rnd now s"
    unfolding a by (simp add: retry_timer_def remove_at_def Let_def)
qed

text \<open>
  Claim C2 on the code. The first image is added with an empty cache and its network load
  fails every time. After the fourth failed attempt, one more than \<^verbatim>\<open>maxRetries + 1\<close>,
  four requests have been sent, the element has neither the default picture nor the class
  \<^verbatim>\<open>image-error\<close>, and a further retry is pending.
\<close>

theorem retries_never_exhausted:
  "map_sum id
     (\<lambda>s. (requests s, src (elements s 1), classList (elements s 1),
           map (\<lambda>t. (retries (callback t), delay t)) (timers s), running s, queue s))
     (run (constructor 2 sample_document True Map.empty sample_resolve) always_failing)
   = Inr ([''/img/1.jpg'', ''/img/1.jpg'', ''/img/1.jpg'', ''/img/1.jpg''], [],
          {''cover-img'', ''image-loading''}, [(1, 1000)], 0, [])"
  by code_simp

text \<open>
  Claim C7 on the code. After the first failed attempt the retry is set for 1000 ms with
  the priority lowered to -1; after the second failed attempt it is again set for 1000 ms,
  not 2000 ms, with the priority lowered to -2.
\<close>

theorem backoff_not_exponential:
  "map_sum id (\<lambda>s. map (\<lambda>t. (delay t, priority (callback t) - 1)) (timers s))
     (run (constructor 2 sample_document True Map.empty sample_resolve)
        (AddImage (Some 1) 0 ''k3x'' 10 # failed_attempt))
   = Inr [(1000, - 1)]
   \<and> map_sum id (\<lambda>s. map (\<lambda>t. (delay t, priority (callback t) - 1)) (timers s))
     (run (constructor 2 sample_document True Map.empty sample_resolve)
        (AddImage (Some 1) 0 ''k3x'' 10 # failed_attempt
           @ TimerFired 0 ''k3x'' 1020 # failed_attempt))
   = Inr [(1000, - 2)]"
  by code_simp

end
